theory Spec2Isabelle
  imports Main "HOL-Library.AList" "HOL-Library.Sublist"
begin

section \<open>The in-memory cache: data model\<close>

text \<open>
  The cache engine of \<^verbatim>\<open>cache.ts\<close>: a table from composite keys to entries, a
  recency list and a byte counter. Strings are \<^typ>\<open>string\<close>; a \<^verbatim>\<open>Buffer\<close> is the
  list of its bytes. The numbers of the source are integers here: byte lengths and
  timestamps are natural numbers, \<^verbatim>\<open>ttlMs\<close>, \<^verbatim>\<open>maxBytes\<close> and \<^verbatim>\<open>usedBytes\<close> are
  integers. \<^verbatim>\<open>Date.now()\<close> is read by \<^verbatim>\<open>set\<close>, \<^verbatim>\<open>get\<close>, \<^verbatim>\<open>has\<close> and the sweeper; every
  such function takes the clock value as its last argument \<open>now\<close>, in milliseconds. Every
  method that assigns to a field of the cache returns the new state, next to its result
  when it has one. The timer of the constructor only calls \<^verbatim>\<open>sweepExpired\<close> between two
  other calls; it appears as one more operation of a run.
\<close>

type_synonym Key = string
type_synonym Namespace = string
type_synonym Buffer = "char list"

subsection \<open>The recency list\<close>

text \<open>
  \<^verbatim>\<open>class LRUNode\<close> carries \<^verbatim>\<open>fullKey\<close> and the two links \<^verbatim>\<open>prev\<close>, \<^verbatim>\<open>next\<close>;
  \<^verbatim>\<open>class LRUList\<close> holds \<^verbatim>\<open>head\<close> and \<^verbatim>\<open>tail\<close>. The links only encode the order of
  the nodes, so the list is represented by the sequence of its nodes from \<^verbatim>\<open>head\<close>
  (most recently used) to \<^verbatim>\<open>tail\<close> (least recently used). \<^verbatim>\<open>head\<close> is the first element
  and \<^verbatim>\<open>tail\<close> the last one. A node is identified by its full key: the cache creates a
  node only for a key that is not in the table, so no two linked nodes carry the same key.
  The next subsection has the linked nodes themselves, and the last section shows that
  their methods act on the sequence as the functions here do.
\<close>

datatype LRUNode = LRUNode (fullKey: string)

type_synonym LRUList = "LRUNode list"

text \<open>\<^verbatim>\<open>detach(node)\<close> unlinks the node; a node that is not linked leaves the list as it is.\<close>

definition detach :: "LRUList \<Rightarrow> LRUNode \<Rightarrow> LRUList" where
  "detach l node = remove1 node l"

text \<open>\<^verbatim>\<open>moveToFront(node)\<close>: nothing when the node is the head, else detach and relink at the head.\<close>

definition moveToFront :: "LRUList \<Rightarrow> LRUNode \<Rightarrow> LRUList" where
  "moveToFront l node =
     (case l of
        h # _ \<Rightarrow> if h = node then l else node # detach l node
      | [] \<Rightarrow> node # detach l node)"

definition pushFront :: "LRUList \<Rightarrow> LRUNode \<Rightarrow> LRUList" where
  "pushFront l node = node # l"

text \<open>\<^verbatim>\<open>popBack()\<close>: \<^verbatim>\<open>null\<close> on the empty list, else the tail node, which is unlinked.\<close>

definition popBack :: "LRUList \<Rightarrow> LRUNode option \<times> LRUList" where
  "popBack l = (if l = [] then (None, l) else (Some (last l), butlast l))"

subsection \<open>The recency list as linked nodes\<close>

text \<open>
  The same class with its pointers. A node is a reference; the fields \<^verbatim>\<open>next\<close> and
  \<^verbatim>\<open>prev\<close> of all nodes are two functions from references to optional references
  (\<^verbatim>\<open>null\<close> is \<open>None\<close>), written \<open>next_p\<close> and \<open>prev_p\<close>; \<^verbatim>\<open>fullKey\<close> is never
  assigned after construction and is not part of the list state. Each function below is
  the method of that name, statement by statement.
\<close>

type_synonym ref = nat

record LinkedList =
  next_p :: "ref \<Rightarrow> ref option"
  prev_p :: "ref \<Rightarrow> ref option"
  head :: "ref option"
  tail :: "ref option"

definition detach_p :: "LinkedList \<Rightarrow> ref \<Rightarrow> LinkedList" where
  "detach_p L node =
     (let L1 = (case prev_p L node of
                  Some p \<Rightarrow> L\<lparr>next_p := (next_p L)(p := next_p L node)\<rparr>
                | None \<Rightarrow> L);
          L2 = (case next_p L1 node of
                  Some x \<Rightarrow> L1\<lparr>prev_p := (prev_p L1)(x := prev_p L1 node)\<rparr>
                | None \<Rightarrow> L1);
          L3 = (if head L2 = Some node then L2\<lparr>head := next_p L2 node\<rparr> else L2);
          L4 = (if tail L3 = Some node then L3\<lparr>tail := prev_p L3 node\<rparr> else L3)
      in L4\<lparr>prev_p := (prev_p L4)(node := None), next_p := (next_p L4)(node := None)\<rparr>)"

text \<open>
  The four statements that end both \<^verbatim>\<open>moveToFront\<close> and \<^verbatim>\<open>pushFront\<close>: link the node
  before the head, make it the head, and the tail too when there is none.
\<close>

definition link_front :: "LinkedList \<Rightarrow> ref \<Rightarrow> LinkedList" where
  "link_front L node =
     (let L1 = L\<lparr>next_p := (next_p L)(node := head L)\<rparr>;
          L2 = (case head L1 of
                  Some h \<Rightarrow> L1\<lparr>prev_p := (prev_p L1)(h := Some node)\<rparr>
                | None \<Rightarrow> L1);
          L3 = L2\<lparr>head := Some node\<rparr>
      in if tail L3 = None then L3\<lparr>tail := Some node\<rparr> else L3)"

definition moveToFront_p :: "LinkedList \<Rightarrow> ref \<Rightarrow> LinkedList" where
  "moveToFront_p L node =
     (if head L = Some node then L else link_front (detach_p L node) node)"

definition pushFront_p :: "LinkedList \<Rightarrow> ref \<Rightarrow> LinkedList" where
  "pushFront_p L node = link_front (L\<lparr>prev_p := (prev_p L)(node := None)\<rparr>) node"

definition popBack_p :: "LinkedList \<Rightarrow> ref option \<times> LinkedList" where
  "popBack_p L = (case tail L of None \<Rightarrow> (None, L) | Some node \<Rightarrow> (Some node, detach_p L node))"

text \<open>
  \<open>chain f x xs\<close>: following \<open>f\<close> from \<open>x\<close> visits exactly \<open>xs\<close> and ends in \<^verbatim>\<open>null\<close>.
  The linked list holds the sequence \<open>xs\<close> when \<^verbatim>\<open>next\<close> from \<^verbatim>\<open>head\<close> visits \<open>xs\<close> and
  \<^verbatim>\<open>prev\<close> from \<^verbatim>\<open>tail\<close> visits it backwards.
\<close>

primrec chain :: "(ref \<Rightarrow> ref option) \<Rightarrow> ref option \<Rightarrow> ref list \<Rightarrow> bool" where
  "chain f x [] = (x = None)"
| "chain f x (a # as) = (x = Some a \<and> chain f (f a) as)"

definition is_list :: "LinkedList \<Rightarrow> ref list \<Rightarrow> bool" where
  "is_list L xs \<longleftrightarrow> chain (next_p L) (head L) xs \<and> chain (prev_p L) (tail L) (rev xs)"

text \<open>
  The sequence of nodes \<open>l\<close> of the model above stands for the linked list \<open>L\<close> when \<open>L\<close>
  holds the references \<open>xs\<close>, no two of them carry the same full key, and \<open>l\<close> lists
  their full keys in order.
\<close>

definition abstracts :: "(ref \<Rightarrow> string) \<Rightarrow> LinkedList \<Rightarrow> ref list \<Rightarrow> LRUList \<Rightarrow> bool" where
  "abstracts key L xs l \<longleftrightarrow>
     is_list L xs \<and> inj_on key (set xs) \<and> l = map (\<lambda>r. LRUNode (key r)) xs"

subsection \<open>Entries and the engine state\<close>

record CacheEntry =
  value_buf :: Buffer
  expiresAt :: nat
  lruNode :: LRUNode
  size_bytes :: nat

record SetOptions =
  ttlMs :: "int option"

text \<open>
  \<^verbatim>\<open>store\<close> is a JavaScript \<^verbatim>\<open>Map\<close>: it iterates in insertion order, \<^verbatim>\<open>Map.set\<close> on a
  present key keeps its position and on a new key appends (\<^const>\<open>AList.update\<close>),
  \<^verbatim>\<open>Map.delete\<close> removes the key (\<^const>\<open>AList.delete\<close>), \<^verbatim>\<open>Map.get\<close> is \<^const>\<open>map_of\<close>.
\<close>

record Cache =
  store :: "(string \<times> CacheEntry) list"
  lru :: LRUList
  maxBytes :: int
  usedBytes :: int

text \<open>The constructor, with \<^verbatim>\<open>options.maxBytes\<close> given; the default is 64 MB.\<close>

definition default_maxBytes :: int where
  "default_maxBytes = 64 * 1024 * 1024"

definition new_cache :: "int option \<Rightarrow> Cache" where
  "new_cache opt_maxBytes =
     \<lparr>store = [], lru = [],
      maxBytes = (case opt_maxBytes of None \<Rightarrow> default_maxBytes | Some m \<Rightarrow> m),
      usedBytes = 0\<rparr>"

section \<open>Operations\<close>

definition makeFullKey :: "Namespace \<Rightarrow> Key \<Rightarrow> string" where
  "makeFullKey ns key = ns @ '':'' @ key"

text \<open>
  The value given to \<^verbatim>\<open>set\<close> is a \<^verbatim>\<open>Buffer\<close>, a string or an object. The two platform
  functions \<^verbatim>\<open>Buffer.from\<close> (UTF-8 encoding of a string) and \<^verbatim>\<open>JSON.stringify\<close> are
  parameters of the model.
\<close>

datatype 'o CacheValue = VBuffer Buffer | VString string | VObject 'o

definition toBuffer :: "(string \<Rightarrow> Buffer) \<Rightarrow> ('o \<Rightarrow> string) \<Rightarrow> 'o CacheValue \<Rightarrow> Buffer" where
  "toBuffer Buffer_from JSON_stringify v =
     (case v of
        VBuffer b \<Rightarrow> b
      | VString s \<Rightarrow> Buffer_from s
      | VObject x \<Rightarrow> Buffer_from (JSON_stringify x))"

text \<open>
  \<^verbatim>\<open>evictUntilWithinBudget\<close>: while over budget, pop the tail of the recency list; stop
  when the list is empty; skip a victim that has no table record; else subtract the
  record's size and delete it from the table. Every round that goes on has shortened the
  recency list.
\<close>

function evictUntilWithinBudget :: "Cache \<Rightarrow> Cache" where
  "evictUntilWithinBudget c =
     (if usedBytes c > maxBytes c then
        (case popBack (lru c) of
           (None, _) \<Rightarrow> c
         | (Some victim, l') \<Rightarrow>
             (case map_of (store c) (fullKey victim) of
                None \<Rightarrow> evictUntilWithinBudget (c\<lparr>lru := l'\<rparr>)
              | Some entry \<Rightarrow>
                  evictUntilWithinBudget
                    (c\<lparr>lru := l',
                       usedBytes := usedBytes c - int (size_bytes entry),
                       store := AList.delete (fullKey victim) (store c)\<rparr>)))
      else c)"
  by pat_completeness auto
termination
  by (relation "measure (\<lambda>c. length (lru c))")
     (auto simp: popBack_def split: if_splits)

declare evictUntilWithinBudget.simps [simp del]

definition set_cache ::
  "(string \<Rightarrow> Buffer) \<Rightarrow> ('o \<Rightarrow> string) \<Rightarrow>
   Cache \<Rightarrow> Namespace \<Rightarrow> Key \<Rightarrow> 'o CacheValue \<Rightarrow> SetOptions \<Rightarrow> nat \<Rightarrow> Cache" where
  "set_cache Buffer_from JSON_stringify c ns key v opts now =
     (let buf = toBuffer Buffer_from JSON_stringify v;
          fk = makeFullKey ns key;
          ttl = (case ttlMs opts of None \<Rightarrow> 0 | Some t \<Rightarrow> t);
          expires = (if ttl > 0 then now + nat ttl else 0)
      in evictUntilWithinBudget
          (case map_of (store c) fk of
             Some ex \<Rightarrow>
               c\<lparr>usedBytes := usedBytes c + (int (length buf) - int (size_bytes ex)),
                 store := AList.update fk
                    (ex\<lparr>value_buf := buf, size_bytes := length buf, expiresAt := expires\<rparr>)
                    (store c),
                 lru := moveToFront (lru c) (lruNode ex)\<rparr>
           | None \<Rightarrow>
               c\<lparr>store := AList.update fk
                    \<lparr>value_buf = buf, expiresAt = expires,
                     lruNode = LRUNode fk, size_bytes = length buf\<rparr>
                    (store c),
                 lru := pushFront (lru c) (LRUNode fk),
                 usedBytes := usedBytes c + int (length buf)\<rparr>))"

text \<open>\<^verbatim>\<open>delete\<close> returns whether a record was removed, and the new state.\<close>

definition delete :: "Cache \<Rightarrow> Namespace \<Rightarrow> Key \<Rightarrow> bool \<times> Cache" where
  "delete c ns key =
     (let fk = makeFullKey ns key in
      case map_of (store c) fk of
        None \<Rightarrow> (False, c)
      | Some entry \<Rightarrow>
          (True,
           c\<lparr>usedBytes := usedBytes c - int (size_bytes entry),
             lru := detach (lru c) (lruNode entry),
             store := AList.delete fk (store c)\<rparr>))"

definition expired :: "CacheEntry \<Rightarrow> nat \<Rightarrow> bool" where
  "expired entry now \<longleftrightarrow> expiresAt entry > 0 \<and> expiresAt entry \<le> now"

definition get :: "Cache \<Rightarrow> Namespace \<Rightarrow> Key \<Rightarrow> nat \<Rightarrow> Buffer option \<times> Cache" where
  "get c ns key now =
     (let fk = makeFullKey ns key in
      case map_of (store c) fk of
        None \<Rightarrow> (None, c)
      | Some entry \<Rightarrow>
          if expired entry now then (None, snd (delete c ns key))
          else (Some (value_buf entry), c\<lparr>lru := moveToFront (lru c) (lruNode entry)\<rparr>))"

definition has :: "Cache \<Rightarrow> Namespace \<Rightarrow> Key \<Rightarrow> nat \<Rightarrow> bool \<times> Cache" where
  "has c ns key now =
     (let fk = makeFullKey ns key in
      case map_of (store c) fk of
        None \<Rightarrow> (False, c)
      | Some entry \<Rightarrow>
          if expired entry now then (False, snd (delete c ns key))
          else (True, c))"

text \<open>
  \<^verbatim>\<open>clearNamespace\<close> walks \<^verbatim>\<open>store.keys()\<close> and deletes while it walks. The iterator of a
  \<^verbatim>\<open>Map\<close> is live: it yields, in insertion order, the keys that are in the map when it
  reaches them. The loop is a recursion on the keys still ahead; a key that is no longer in
  the map is not visited.
\<close>

fun clearNamespace_loop :: "Namespace \<Rightarrow> string list \<Rightarrow> nat \<times> Cache \<Rightarrow> nat \<times> Cache" where
  "clearNamespace_loop ns [] rc = rc"
| "clearNamespace_loop ns (fk # ks) (removed, c) =
     (case map_of (store c) fk of
        None \<Rightarrow> clearNamespace_loop ns ks (removed, c)
      | Some entry \<Rightarrow>
          if prefix (ns @ '':'') fk then
            clearNamespace_loop ns ks
              (removed + 1,
               c\<lparr>usedBytes := usedBytes c - int (size_bytes entry),
                 lru := detach (lru c) (lruNode entry),
                 store := AList.delete fk (store c)\<rparr>)
          else clearNamespace_loop ns ks (removed, c))"

definition clearNamespace :: "Cache \<Rightarrow> Namespace \<Rightarrow> nat \<times> Cache" where
  "clearNamespace c ns = clearNamespace_loop ns (map fst (store c)) (0, c)"

record Stats =
  keys :: nat
  usedBytes_stat :: int
  maxBytes_stat :: int

text \<open>\<^verbatim>\<open>stats\<close> reads three fields and assigns nothing: a function of the state alone.\<close>

definition stats :: "Cache \<Rightarrow> Stats" where
  "stats c = \<lparr>keys = length (store c), usedBytes_stat = usedBytes c, maxBytes_stat = maxBytes c\<rparr>"

text \<open>
  \<^verbatim>\<open>sweepExpired\<close> reads the clock once and walks the entries of the live \<^verbatim>\<open>Map\<close>
  iterator, deleting the expired ones.
\<close>

fun sweepExpired_loop :: "nat \<Rightarrow> string list \<Rightarrow> Cache \<Rightarrow> Cache" where
  "sweepExpired_loop now [] c = c"
| "sweepExpired_loop now (fk # ks) c =
     (case map_of (store c) fk of
        None \<Rightarrow> sweepExpired_loop now ks c
      | Some entry \<Rightarrow>
          if expired entry now then
            sweepExpired_loop now ks
              (c\<lparr>usedBytes := usedBytes c - int (size_bytes entry),
                 lru := detach (lru c) (lruNode entry),
                 store := AList.delete fk (store c)\<rparr>)
          else sweepExpired_loop now ks c)"

definition sweepExpired :: "Cache \<Rightarrow> nat \<Rightarrow> Cache" where
  "sweepExpired c now = sweepExpired_loop now (map fst (store c)) c"


section \<open>Well-formed states and runs\<close>

text \<open>The true sum of the sizes of the entries of a table.\<close>

definition sizes :: "(string \<times> CacheEntry) list \<Rightarrow> int" where
  "sizes al = (\<Sum>p\<leftarrow>al. int (size_bytes (snd p)))"

text \<open>
  The well-formed states: the table has one record per key, the recency list has no node
  twice, its nodes are the nodes of the table's keys, every record points to the node of
  its own key, and the byte counter is the true sum.
\<close>

definition cache_inv :: "Cache \<Rightarrow> bool" where
  "cache_inv c \<longleftrightarrow>
     distinct (map fst (store c)) \<and>
     distinct (lru c) \<and>
     set (lru c) = LRUNode ` fst ` set (store c) \<and>
     (\<forall>k e. map_of (store c) k = Some e \<longrightarrow> lruNode e = LRUNode k) \<and>
     usedBytes c = sizes (store c)"

text \<open>
  The operations that change the state, with their arguments and the clock value they
  read. \<open>Evict\<close> is the budget enforcement on its own and \<open>Sweep\<close> one pass of the
  sweeper, which the timer runs between two calls.
\<close>

datatype 'o Op =
    Set Namespace Key "'o CacheValue" SetOptions nat
  | Get Namespace Key nat
  | Has Namespace Key nat
  | Delete Namespace Key
  | ClearNamespace Namespace
  | Evict
  | Sweep nat

fun apply_op :: "(string \<Rightarrow> Buffer) \<Rightarrow> ('o \<Rightarrow> string) \<Rightarrow> Cache \<Rightarrow> 'o Op \<Rightarrow> Cache" where
  "apply_op bf js c (Set ns key v opts now) = set_cache bf js c ns key v opts now"
| "apply_op bf js c (Get ns key now) = snd (get c ns key now)"
| "apply_op bf js c (Has ns key now) = snd (has c ns key now)"
| "apply_op bf js c (Delete ns key) = snd (delete c ns key)"
| "apply_op bf js c (ClearNamespace ns) = snd (clearNamespace c ns)"
| "apply_op bf js c Evict = evictUntilWithinBudget c"
| "apply_op bf js c (Sweep now) = sweepExpired c now"

definition run :: "(string \<Rightarrow> Buffer) \<Rightarrow> ('o \<Rightarrow> string) \<Rightarrow> Cache \<Rightarrow> 'o Op list \<Rightarrow> Cache" where
  "run bf js c ops = foldl (apply_op bf js) c ops"

section \<open>Sample data\<close>

text \<open>
  A serializer for a fragment of JSON (null, booleans, integers, strings that need no
  escape, objects), standing for \<^verbatim>\<open>JSON.stringify\<close> where a concrete object is written,
  as in the test \<^verbatim>\<open>c.set("n", "k", { a: 1 })\<close>.
\<close>

datatype json = JNull | JBool bool | JNum int | JStr string | JObj "(string \<times> json) list"

definition digit :: "nat \<Rightarrow> char" where
  "digit n = ''0123456789'' ! (n mod 10)"

function decimal :: "nat \<Rightarrow> string" where
  "decimal n = (if n < 10 then [digit n] else decimal (n div 10) @ [digit (n mod 10)])"
  by pat_completeness auto
termination
  by (relation "measure (\<lambda>n. n)") auto

declare decimal.simps [simp del]

fun join :: "string list \<Rightarrow> string" where
  "join [] = []"
| "join [s] = s"
| "join (s # t # ss) = s @ '','' @ join (t # ss)"

fun JSON_stringify :: "json \<Rightarrow> string" where
  "JSON_stringify JNull = ''null''"
| "JSON_stringify (JBool b) = (if b then ''true'' else ''false'')"
| "JSON_stringify (JNum i) = (if i < 0 then ''-'' @ decimal (nat (- i)) else decimal (nat i))"
| "JSON_stringify (JStr s) = [CHR 0x22] @ s @ [CHR 0x22]"
| "JSON_stringify (JObj ms) =
     ''{'' @ join (map (\<lambda>p. [CHR 0x22] @ fst p @ [CHR 0x22] @ '':'' @ JSON_stringify (snd p)) ms) @ ''}''"

text \<open>
  A state with the entry \<open>n:a\<close>, which expires at 1020, and the entry \<open>n:b\<close>, which never
  expires, each of 2 bytes, under a budget of 100 bytes.
\<close>

definition sample_cache :: Cache where
  "sample_cache =
     \<lparr>store = [(''n:a'', \<lparr>value_buf = ''v1'', expiresAt = 1020, lruNode = LRUNode ''n:a'', size_bytes = 2\<rparr>),
               (''n:b'', \<lparr>value_buf = ''v2'', expiresAt = 0, lruNode = LRUNode ''n:b'', size_bytes = 2\<rparr>)],
      lru = [LRUNode ''n:b'', LRUNode ''n:a''],
      maxBytes = 100,
      usedBytes = 4\<rparr>"

section \<open>The invariant\<close>

lemma sizes_Nil [simp]: "sizes [] = 0" by (simp add: sizes_def)
lemma sizes_Cons [simp]: "sizes (p # al) = int (size_bytes (snd p)) + sizes al" by (simp add: sizes_def)

lemma sizes_delete_notin: "k \<notin> fst ` set al \<Longrightarrow> AList.delete k al = al"
  by (induction al) auto

lemma sizes_delete:
  "distinct (map fst al) \<Longrightarrow> map_of al k = Some e \<Longrightarrow>
   sizes (AList.delete k al) = sizes al - int (size_bytes e)"
  by (induction al) (auto simp: sizes_delete_notin)

lemma sizes_update_new:
  "map_of al k = None \<Longrightarrow> sizes (AList.update k e al) = sizes al + int (size_bytes e)"
  by (induction al) (auto)

lemma sizes_update_old:
  "map_of al k = Some e0 \<Longrightarrow>
   sizes (AList.update k e al) = sizes al - int (size_bytes e0) + int (size_bytes e)"
  by (induction al) (auto)

lemma butlast_remove1_last: "distinct l \<Longrightarrow> l \<noteq> [] \<Longrightarrow> remove1 (last l) l = butlast l"
  by (induction l) (auto)

lemma cache_inv_remove:
  assumes "cache_inv c" "map_of (store c) k = Some e"
  shows "cache_inv (c\<lparr>usedBytes := usedBytes c - int (size_bytes e),
                     lru := detach (lru c) (lruNode e),
                     store := AList.delete k (store c)\<rparr>)"
proof -
  from assms have n: "lruNode e = LRUNode k" and d: "distinct (map fst (store c))"
    and dl: "distinct (lru c)" and s: "set (lru c) = LRUNode ` fst ` set (store c)"
    by (auto simp: cache_inv_def)
  have "fst ` set (AList.delete k (store c)) = fst ` set (store c) - {k}"
    by (auto simp: AList.delete_eq image_iff)
  then have "set (remove1 (LRUNode k) (lru c)) = LRUNode ` fst ` set (AList.delete k (store c))"
    using dl s by auto
  moreover have "\<forall>k' e'. map_of (AList.delete k (store c)) k' = Some e' \<longrightarrow> lruNode e' = LRUNode k'"
    using assms by (auto simp: cache_inv_def AList.delete_conv split: if_splits)
  ultimately show ?thesis using assms n
    by (simp add: cache_inv_def detach_def AList.distinct_delete sizes_delete)
qed

lemma cache_inv_lookup_last:
  assumes "cache_inv c" "lru c \<noteq> []"
  shows "\<exists>e. map_of (store c) (fullKey (last (lru c))) = Some e \<and> lruNode e = last (lru c)"
proof -
  have "last (lru c) \<in> set (lru c)" using assms by simp
  moreover have "set (lru c) = LRUNode ` fst ` set (store c)"
    using assms by (simp add: cache_inv_def)
  ultimately obtain k where k: "last (lru c) = LRUNode k" "k \<in> fst ` set (store c)"
    by blast
  then obtain e where "map_of (store c) k = Some e"
    by (metis domD dom_map_of_conv_image_fst)
  with k assms show ?thesis by (auto simp: cache_inv_def)
qed

lemma cache_inv_evict: "cache_inv c \<Longrightarrow> cache_inv (evictUntilWithinBudget c)"
proof (induction c rule: evictUntilWithinBudget.induct)
  case (1 c)
  show ?case
  proof (cases "usedBytes c > maxBytes c \<and> lru c \<noteq> []")
    case False
    then show ?thesis using "1.prems"
      by (subst evictUntilWithinBudget.simps) (auto simp: popBack_def)
  next
    case True
    let ?v = "last (lru c)"
    from cache_inv_lookup_last[OF "1.prems"] True obtain e where
      e: "map_of (store c) (fullKey ?v) = Some e" "lruNode e = ?v" by auto
    have pb: "popBack (lru c) = (Some ?v, butlast (lru c))" using True by (simp add: popBack_def)
    have bl: "butlast (lru c) = detach (lru c) (lruNode e)"
      using "1.prems" True e by (simp add: detach_def butlast_remove1_last cache_inv_def)
    let ?c' = "c\<lparr>lru := butlast (lru c), usedBytes := usedBytes c - int (size_bytes e),
                  store := AList.delete (fullKey ?v) (store c)\<rparr>"
    have "?c' = c\<lparr>usedBytes := usedBytes c - int (size_bytes e),
                     lru := detach (lru c) (lruNode e),
                     store := AList.delete (fullKey ?v) (store c)\<rparr>"
      using bl by simp
    then have inv': "cache_inv ?c'" using cache_inv_remove[OF "1.prems" e(1)] by simp
    have "cache_inv (evictUntilWithinBudget ?c')"
      using "1.IH"(2)[OF _ pb[symmetric] refl e(1) inv'] True by simp
    then show ?thesis using True pb e
      by (subst evictUntilWithinBudget.simps) (simp)
  qed
qed

lemma cache_inv_new: "cache_inv (new_cache m)"
  by (simp add: cache_inv_def new_cache_def)

lemma cache_inv_delete: "cache_inv c \<Longrightarrow> cache_inv (snd (delete c ns key))"
  by (auto simp: delete_def Let_def cache_inv_remove split: option.splits)

lemma set_moveToFront: "node \<in> set l \<Longrightarrow> set (moveToFront l node) = set l"
  by (cases l) (auto simp: moveToFront_def detach_def)

lemma distinct_moveToFront: "distinct l \<Longrightarrow> distinct (moveToFront l node)"
  by (cases l) (auto simp: moveToFront_def detach_def)

lemma cache_inv_node_in_lru:
  assumes "cache_inv c" "map_of (store c) k = Some e"
  shows "lruNode e = LRUNode k" and "LRUNode k \<in> set (lru c)" and "k \<in> fst ` set (store c)"
proof -
  show "lruNode e = LRUNode k" using assms unfolding cache_inv_def by blast
  have "(k, e) \<in> set (store c)" using assms(2) by (rule map_of_SomeD)
  then show kin: "k \<in> fst ` set (store c)" by force
  have "set (lru c) = LRUNode ` fst ` set (store c)" using assms(1) unfolding cache_inv_def by blast
  then show "LRUNode k \<in> set (lru c)" using kin by blast
qed

lemma cache_inv_touch:
  assumes "cache_inv c" "map_of (store c) k = Some e"
  shows "cache_inv (c\<lparr>lru := moveToFront (lru c) (lruNode e)\<rparr>)"
proof -
  note n = cache_inv_node_in_lru[OF assms]
  have "set (moveToFront (lru c) (LRUNode k)) = set (lru c)"
    using n(2) by (rule set_moveToFront)
  moreover have "distinct (moveToFront (lru c) (LRUNode k))"
    using assms(1) by (simp add: cache_inv_def distinct_moveToFront)
  ultimately show ?thesis using assms(1) unfolding cache_inv_def n(1) by simp
qed

lemma cache_inv_get: "cache_inv c \<Longrightarrow> cache_inv (snd (get c ns key now))"
  by (auto simp: get_def Let_def cache_inv_delete cache_inv_touch split: option.splits)

lemma cache_inv_has: "cache_inv c \<Longrightarrow> cache_inv (snd (has c ns key now))"
  by (auto simp: has_def Let_def cache_inv_delete split: option.splits)

lemma cache_inv_clearNamespace_loop:
  "cache_inv c \<Longrightarrow> cache_inv (snd (clearNamespace_loop ns ks (r, c)))"
  by (induction ks arbitrary: r c) (auto simp: cache_inv_remove split: option.splits)

lemma cache_inv_clearNamespace: "cache_inv c \<Longrightarrow> cache_inv (snd (clearNamespace c ns))"
  by (simp add: clearNamespace_def cache_inv_clearNamespace_loop)

lemma cache_inv_sweepExpired_loop:
  "cache_inv c \<Longrightarrow> cache_inv (sweepExpired_loop now ks c)"
  by (induction ks arbitrary: c) (auto simp: cache_inv_remove split: option.splits)

lemma cache_inv_sweepExpired: "cache_inv c \<Longrightarrow> cache_inv (sweepExpired c now)"
  by (simp add: sweepExpired_def cache_inv_sweepExpired_loop)

lemma cache_inv_insert:
  assumes "cache_inv c" "map_of (store c) k = None"
  shows "cache_inv (c\<lparr>store := AList.update k
                        \<lparr>value_buf = buf, expiresAt = ex, lruNode = LRUNode k, size_bytes = length buf\<rparr>
                        (store c),
                     lru := pushFront (lru c) (LRUNode k),
                     usedBytes := usedBytes c + int (length buf)\<rparr>)"
proof -
  let ?e = "\<lparr>value_buf = buf, expiresAt = ex, lruNode = LRUNode k, size_bytes = length buf\<rparr>"
  have nk: "k \<notin> fst ` set (store c)" using assms(2) by (simp add: map_of_eq_None_iff)
  have s: "set (lru c) = LRUNode ` fst ` set (store c)"
    using assms(1) unfolding cache_inv_def by blast
  have 1: "distinct (map fst (AList.update k ?e (store c)))"
    using assms(1) by (simp add: cache_inv_def AList.distinct_update)
  have 2: "distinct (LRUNode k # lru c)"
    using assms(1) nk s by (auto simp: cache_inv_def)
  have 3: "set (LRUNode k # lru c) = LRUNode ` fst ` set (AList.update k ?e (store c))"
    using s by (simp add: AList.dom_update)
  have 4: "\<forall>k' e'. map_of (AList.update k ?e (store c)) k' = Some e' \<longrightarrow> lruNode e' = LRUNode k'"
    using assms(1) by (auto simp: cache_inv_def AList.update_conv')
  have 5: "usedBytes c + int (length buf) = sizes (AList.update k ?e (store c))"
    using assms by (simp add: cache_inv_def sizes_update_new)
  show ?thesis unfolding cache_inv_def pushFront_def using 1 2 3 4 5 by simp
qed

lemma cache_inv_replace:
  assumes "cache_inv c" "map_of (store c) k = Some e"
  shows "cache_inv (c\<lparr>usedBytes := usedBytes c + (int (length buf) - int (size_bytes e)),
                     store := AList.update k
                        (e\<lparr>value_buf := buf, size_bytes := length buf, expiresAt := ex\<rparr>)
                        (store c),
                     lru := moveToFront (lru c) (lruNode e)\<rparr>)"
proof -
  let ?e = "e\<lparr>value_buf := buf, size_bytes := length buf, expiresAt := ex\<rparr>"
  note n = cache_inv_node_in_lru[OF assms]
  have s: "set (lru c) = LRUNode ` fst ` set (store c)"
    using assms(1) unfolding cache_inv_def by blast
  have 1: "distinct (map fst (AList.update k ?e (store c)))"
    using assms(1) by (simp add: cache_inv_def AList.distinct_update)
  have 2: "distinct (moveToFront (lru c) (LRUNode k))"
    using assms(1) by (simp add: cache_inv_def distinct_moveToFront)
  have "{k} \<union> fst ` set (store c) = fst ` set (store c)" using n(3) by blast
  then have 3: "set (moveToFront (lru c) (LRUNode k)) = LRUNode ` fst ` set (AList.update k ?e (store c))"
    using s n(2) by (simp add: AList.dom_update set_moveToFront)
  have 4: "\<forall>k' e'. map_of (AList.update k ?e (store c)) k' = Some e' \<longrightarrow> lruNode e' = LRUNode k'"
    using assms(1) n(1) by (auto simp: cache_inv_def AList.update_conv')
  have 5: "usedBytes c + (int (length buf) - int (size_bytes e)) = sizes (AList.update k ?e (store c))"
    using assms by (simp add: cache_inv_def sizes_update_old)
  show ?thesis unfolding cache_inv_def n(1) using 1 2 3 4 5 by simp
qed

lemma cache_inv_set_cache:
  "cache_inv c \<Longrightarrow> cache_inv (set_cache bf js c ns key v opts now)"
  unfolding set_cache_def Let_def
  by (rule cache_inv_evict) (auto simp: cache_inv_insert cache_inv_replace split: option.splits)

lemma cache_inv_apply_op: "cache_inv c \<Longrightarrow> cache_inv (apply_op bf js c op)"
  by (cases op)
     (simp_all add: cache_inv_set_cache cache_inv_get cache_inv_has cache_inv_delete
        cache_inv_clearNamespace cache_inv_evict cache_inv_sweepExpired)

lemma cache_inv_run: "cache_inv c \<Longrightarrow> cache_inv (run bf js c ops)"
  unfolding run_def by (induction ops arbitrary: c) (simp_all add: cache_inv_apply_op)

lemma cache_inv_keys: "cache_inv c \<Longrightarrow> fullKey ` set (lru c) = fst ` set (store c)"
  by (simp add: cache_inv_def image_image)

text \<open>
  C1. In every state that a newly constructed cache reaches by any sequence of \<open>set\<close>,
  \<open>get\<close>, \<open>has\<close>, \<open>delete\<close>, \<open>clearNamespace\<close>, budget enforcement and sweep passes,
  \<open>usedBytes\<close> is the sum of the sizes of the entries of the table, and the full keys of
  the nodes of the recency list are the keys of the table.
\<close>

theorem invariant_reachable:
  "usedBytes (run bf js (new_cache m) ops) = sizes (store (run bf js (new_cache m) ops)) \<and>
   fullKey ` set (lru (run bf js (new_cache m) ops)) = fst ` set (store (run bf js (new_cache m) ops))"
proof -
  have "cache_inv (run bf js (new_cache m) ops)"
    by (rule cache_inv_run) (rule cache_inv_new)
  then show ?thesis by (simp add: cache_inv_keys) (simp add: cache_inv_def)
qed



section \<open>Budget enforcement and recency\<close>

lemma evict_within: "usedBytes c \<le> maxBytes c \<Longrightarrow> evictUntilWithinBudget c = c"
  by (subst evictUntilWithinBudget.simps) simp

lemma evict_empty: "lru c = [] \<Longrightarrow> evictUntilWithinBudget c = c"
  by (subst evictUntilWithinBudget.simps) (simp add: popBack_def)

lemma evict_step:
  assumes "usedBytes c > maxBytes c" "lru c = l @ [v]" "map_of (store c) (fullKey v) = Some e"
  shows "evictUntilWithinBudget c =
         evictUntilWithinBudget (c\<lparr>usedBytes := usedBytes c - int (size_bytes e), lru := l,
                                    store := AList.delete (fullKey v) (store c)\<rparr>)"
proof -
  have eq: "c\<lparr>lru := l, usedBytes := usedBytes c - int (size_bytes e),
           store := AList.delete (fullKey v) (store c)\<rparr> =
        c\<lparr>usedBytes := usedBytes c - int (size_bytes e), lru := l,
           store := AList.delete (fullKey v) (store c)\<rparr>"
    by simp
  show ?thesis using assms
    by (subst evictUntilWithinBudget.simps) (simp add: popBack_def eq)
qed

lemma evict_absent:
  "map_of (store c) k = None \<Longrightarrow> map_of (store (evictUntilWithinBudget c)) k = None"
proof (induction c rule: evictUntilWithinBudget.induct)
  case (1 c)
  show ?case
  proof (cases "usedBytes c > maxBytes c \<and> lru c \<noteq> []")
    case False
    then have "evictUntilWithinBudget c = c"
      using evict_within[of c] evict_empty[of c] by auto
    then show ?thesis using "1.prems" by simp
  next
    case True
    then have pb: "popBack (lru c) = (Some (last (lru c)), butlast (lru c))"
      by (simp add: popBack_def)
    show ?thesis
    proof (cases "map_of (store c) (fullKey (last (lru c)))")
      case None
      then show ?thesis
        using True pb "1.IH"(1)[OF _ pb[symmetric] refl None] "1.prems"
        by (subst evictUntilWithinBudget.simps) simp
    next
      case (Some e)
      have "map_of (AList.delete (fullKey (last (lru c))) (store c)) k = None"
        using "1.prems" by (simp add: AList.delete_conv)
      then show ?thesis
        using True pb "1.IH"(2)[OF _ pb[symmetric] refl Some] Some
        by (subst evictUntilWithinBudget.simps) simp
    qed
  qed
qed

text \<open>\<^verbatim>\<open>has\<close> on a present, unexpired key changes nothing.\<close>

lemma has_present_unchanged:
  "map_of (store c) (makeFullKey ns key) = Some e \<Longrightarrow> \<not> expired e now \<Longrightarrow>
   has c ns key now = (True, c)"
  by (simp add: has_def)

lemma update_fresh: "k \<notin> fst ` set al \<Longrightarrow> AList.update k e al = al @ [(k, e)]"
  by (induction al) auto

lemma set_cache_fresh:
  assumes "map_of (store c) (makeFullKey ns key) = None"
  obtains entry where
    "value_buf entry = toBuffer bf js v"
    "size_bytes entry = length (toBuffer bf js v)"
    "lruNode entry = LRUNode (makeFullKey ns key)"
    "expiresAt entry = (case ttlMs opts of None \<Rightarrow> 0 | Some t \<Rightarrow> if t > 0 then now + nat t else 0)"
    "set_cache bf js c ns key v opts now =
     evictUntilWithinBudget
       (c\<lparr>store := store c @ [(makeFullKey ns key, entry)],
          lru := LRUNode (makeFullKey ns key) # lru c,
          usedBytes := usedBytes c + int (length (toBuffer bf js v))\<rparr>)"
proof -
  have "AList.update (makeFullKey ns key) e (store c) = store c @ [(makeFullKey ns key, e)]" for e
    using assms by (simp add: update_fresh map_of_eq_None_iff)
  then show ?thesis using assms
    by (intro that[of "\<lparr>value_buf = toBuffer bf js v,
          expiresAt = (case ttlMs opts of None \<Rightarrow> 0 | Some t \<Rightarrow> if t > 0 then now + nat t else 0),
          lruNode = LRUNode (makeFullKey ns key), size_bytes = length (toBuffer bf js v)\<rparr>"])
       (simp_all add: set_cache_def Let_def pushFront_def split: option.splits)
qed

text \<open>
  C2. \<open>has\<close> on a present key that has not expired returns true and leaves the whole
  state, so the order of the recency list, as it is. In particular, start from a new cache
  whose budget \<open>B\<close> is exactly the size of \<open>a\<close> plus the size of \<open>b\<close>, and run
  \<open>set(a)\<close>, \<open>set(b)\<close>, \<open>has(a)\<close>, \<open>set(c)\<close> with three different full keys and a
  non-empty \<open>c\<close>, which exceeds the budget. When \<open>has(a)\<close> answers true the list is still
  \<open>b\<close>, \<open>a\<close>: \<open>a\<close> is at the tail, the next victim. After \<open>set(c)\<close> the entry \<open>a\<close> is not in
  the table, and \<open>b\<close> and \<open>c\<close> are, whenever the room that \<open>a\<close> leaves is enough for \<open>c\<close>
  (the size of \<open>c\<close> is at most the size of \<open>a\<close>, as with the sizes 5, 5, 1 of the
  end-to-end scenario).
\<close>

theorem has_keeps_recency:
  fixes bf :: "string \<Rightarrow> Buffer" and js :: "'o \<Rightarrow> string"
    and B and ta and tb and th and tc and nsa and ka and va and oa
    and nsb and kb and vb and ob and nsc and kc and vc and oc
  defines "c1 \<equiv> set_cache bf js (new_cache (Some B)) nsa ka va oa ta"
  defines "c2 \<equiv> set_cache bf js c1 nsb kb vb ob tb"
  defines "c4 \<equiv> set_cache bf js (snd (has c2 nsa ka th)) nsc kc vc oc tc"
  shows "(map_of (store c) (makeFullKey ns key) = Some e \<and> \<not> expired e now \<longrightarrow>
            has c ns key now = (True, c)) \<and>
         (makeFullKey nsa ka \<noteq> makeFullKey nsb kb \<and>
          makeFullKey nsa ka \<noteq> makeFullKey nsc kc \<and>
          makeFullKey nsb kb \<noteq> makeFullKey nsc kc \<and>
          int (length (toBuffer bf js va)) + int (length (toBuffer bf js vb)) = B \<and>
          0 < length (toBuffer bf js vc) \<longrightarrow>
            (fst (has c2 nsa ka th) \<longrightarrow>
               lru (snd (has c2 nsa ka th)) = [LRUNode (makeFullKey nsb kb), LRUNode (makeFullKey nsa ka)]) \<and>
            map_of (store c4) (makeFullKey nsa ka) = None \<and>
            (length (toBuffer bf js vc) \<le> length (toBuffer bf js va) \<longrightarrow>
               map_of (store c4) (makeFullKey nsb kb) \<noteq> None \<and>
               map_of (store c4) (makeFullKey nsc kc) \<noteq> None))"
proof (intro conjI impI; (elim conjE)?)
  show "has c ns key now = (True, c)"
    if "map_of (store c) (makeFullKey ns key) = Some e" "\<not> expired e now"
    using that by (rule has_present_unchanged)
next
  define fa fb fc where "fa = makeFullKey nsa ka" and "fb = makeFullKey nsb kb"
    and "fc = makeFullKey nsc kc"
  define la lb lc where "la = length (toBuffer bf js va)"
    and "lb = length (toBuffer bf js vb)" and "lc = length (toBuffer bf js vc)"
  assume ne: "makeFullKey nsa ka \<noteq> makeFullKey nsb kb" "makeFullKey nsa ka \<noteq> makeFullKey nsc kc"
    "makeFullKey nsb kb \<noteq> makeFullKey nsc kc"
    and fit: "int (length (toBuffer bf js va)) + int (length (toBuffer bf js vb)) = B"
    and pos: "0 < length (toBuffer bf js vc)"
  obtain ea where ea: "size_bytes ea = la" "lruNode ea = LRUNode fa"
    and "c1 = evictUntilWithinBudget \<lparr>store = [(fa, ea)], lru = [LRUNode fa],
                                       maxBytes = B, usedBytes = int la\<rparr>"
    unfolding c1_def fa_def la_def
    by (rule set_cache_fresh[where c = "new_cache (Some B)" and ns = nsa and key = ka and bf = bf
           and js = js and v = va and opts = oa and now = ta])
       (simp_all add: new_cache_def)
  then have c1: "c1 = \<lparr>store = [(fa, ea)], lru = [LRUNode fa], maxBytes = B, usedBytes = int la\<rparr>"
    using fit by (simp add: evict_within la_def)
  obtain eb where eb: "size_bytes eb = lb"
    and "c2 = evictUntilWithinBudget \<lparr>store = [(fa, ea), (fb, eb)],
             lru = [LRUNode fb, LRUNode fa], maxBytes = B, usedBytes = int la + int lb\<rparr>"
    unfolding c2_def fb_def lb_def
    by (rule set_cache_fresh[where c = c1 and ns = nsb and key = kb and bf = bf
           and js = js and v = vb and opts = ob and now = tb])
       (use ne in \<open>simp_all add: c1 fa_def\<close>)
  then have c2: "c2 = \<lparr>store = [(fa, ea), (fb, eb)], lru = [LRUNode fb, LRUNode fa],
                       maxBytes = B, usedBytes = int la + int lb\<rparr>"
    using fit by (simp add: evict_within la_def lb_def)
  define c3 where "c3 = snd (has c2 nsa ka th)"
  have c3_cases: "c3 = c2 \<or>
      c3 = \<lparr>store = [(fb, eb)], lru = [LRUNode fb], maxBytes = B, usedBytes = int lb\<rparr>"
    using ne ea unfolding c3_def c2
    by (simp add: has_def delete_def fa_def[symmetric] fb_def[symmetric] detach_def)
  have c3_fresh: "map_of (store c3) (makeFullKey nsc kc) = None"
    using c3_cases ne by (auto simp: c2 fa_def fb_def)
  obtain ec where ec: "size_bytes ec = lc"
    and c4': "c4 = evictUntilWithinBudget
       (c3\<lparr>store := store c3 @ [(fc, ec)], lru := LRUNode fc # lru c3,
           usedBytes := usedBytes c3 + int lc\<rparr>)"
    unfolding c4_def c3_def[symmetric] fc_def lc_def
    by (rule set_cache_fresh[OF c3_fresh, where bf = bf and js = js and v = vc and opts = oc and now = tc])
  have c4: "c4 = evictUntilWithinBudget
       \<lparr>store = [(fb, eb), (fc, ec)], lru = [LRUNode fc, LRUNode fb],
        maxBytes = B, usedBytes = int lb + int lc\<rparr>"
    using c3_cases
  proof
    assume "c3 = c2"
    then have "c4 = evictUntilWithinBudget
       \<lparr>store = [(fa, ea), (fb, eb), (fc, ec)], lru = [LRUNode fc, LRUNode fb, LRUNode fa],
        maxBytes = B, usedBytes = int la + int lb + int lc\<rparr>"
      by (simp add: c4' c2)
    also have "\<dots> = evictUntilWithinBudget
       \<lparr>store = [(fb, eb), (fc, ec)], lru = [LRUNode fc, LRUNode fb],
        maxBytes = B, usedBytes = int lb + int lc\<rparr>"
    proof -
      have over: "B < int la + int lb + int lc"
        using pos fit by (simp add: la_def lb_def lc_def)
      show ?thesis
        by (subst evict_step[where l = "[LRUNode fc, LRUNode fb]" and v = "LRUNode fa" and e = ea])
           (use over ne ea in \<open>simp_all add: fa_def fb_def fc_def\<close>)
    qed
    finally show ?thesis .
  next
    assume "c3 = \<lparr>store = [(fb, eb)], lru = [LRUNode fb], maxBytes = B, usedBytes = int lb\<rparr>"
    then show ?thesis by (simp add: c4')
  qed
  show "lru (snd (has c2 nsa ka th)) = [LRUNode (makeFullKey nsb kb), LRUNode (makeFullKey nsa ka)]"
    if "fst (has c2 nsa ka th)"
    using that ea unfolding c2
    by (auto simp: has_def fa_def[symmetric] fb_def[symmetric] split: if_splits)
  have "map_of (store c4) fa = None"
    unfolding c4 using ne by (intro evict_absent) (simp add: fa_def fb_def fc_def)
  then show "map_of (store c4) (makeFullKey nsa ka) = None" by (simp add: fa_def)
  assume "length (toBuffer bf js vc) \<le> length (toBuffer bf js va)"
  then have "c4 = \<lparr>store = [(fb, eb), (fc, ec)], lru = [LRUNode fc, LRUNode fb],
        maxBytes = B, usedBytes = int lb + int lc\<rparr>"
    unfolding c4 using fit by (intro evict_within) (simp add: la_def lb_def lc_def)
  then show "map_of (store c4) (makeFullKey nsb kb) \<noteq> None"
    and "map_of (store c4) (makeFullKey nsc kc) \<noteq> None"
    using ne by (simp_all add: fb_def fc_def)
qed

text \<open>The scenario with budget 10 and the values \<open>12345\<close>, \<open>12345\<close>, \<open>1\<close>.\<close>

theorem has_keeps_recency_witness:
  "has (set_cache (\<lambda>s. s) (\<lambda>u::unit. []) 
          (set_cache (\<lambda>s. s) (\<lambda>u::unit. []) (new_cache (Some 10)) ''n'' ''a'' (VString ''12345'') \<lparr>ttlMs = None\<rparr> 1)
          ''n'' ''b'' (VString ''12345'') \<lparr>ttlMs = None\<rparr> 2) ''n'' ''a'' 3 =
     (True, set_cache (\<lambda>s. s) (\<lambda>u::unit. []) 
          (set_cache (\<lambda>s. s) (\<lambda>u::unit. []) (new_cache (Some 10)) ''n'' ''a'' (VString ''12345'') \<lparr>ttlMs = None\<rparr> 1)
          ''n'' ''b'' (VString ''12345'') \<lparr>ttlMs = None\<rparr> 2) \<and>
   lru (snd (has (set_cache (\<lambda>s. s) (\<lambda>u::unit. []) 
          (set_cache (\<lambda>s. s) (\<lambda>u::unit. []) (new_cache (Some 10)) ''n'' ''a'' (VString ''12345'') \<lparr>ttlMs = None\<rparr> 1)
          ''n'' ''b'' (VString ''12345'') \<lparr>ttlMs = None\<rparr> 2) ''n'' ''a'' 3)) =
     [LRUNode (makeFullKey ''n'' ''b''), LRUNode (makeFullKey ''n'' ''a'')] \<and>
   map_of (store (set_cache (\<lambda>s. s) (\<lambda>u::unit. [])
       (snd (has (set_cache (\<lambda>s. s) (\<lambda>u::unit. []) 
          (set_cache (\<lambda>s. s) (\<lambda>u::unit. []) (new_cache (Some 10)) ''n'' ''a'' (VString ''12345'') \<lparr>ttlMs = None\<rparr> 1)
          ''n'' ''b'' (VString ''12345'') \<lparr>ttlMs = None\<rparr> 2) ''n'' ''a'' 3))
       ''n'' ''c'' (VString ''1'') \<lparr>ttlMs = None\<rparr> 4)) (makeFullKey ''n'' ''a'') = None \<and>
   map_of (store (set_cache (\<lambda>s. s) (\<lambda>u::unit. [])
       (snd (has (set_cache (\<lambda>s. s) (\<lambda>u::unit. []) 
          (set_cache (\<lambda>s. s) (\<lambda>u::unit. []) (new_cache (Some 10)) ''n'' ''a'' (VString ''12345'') \<lparr>ttlMs = None\<rparr> 1)
          ''n'' ''b'' (VString ''12345'') \<lparr>ttlMs = None\<rparr> 2) ''n'' ''a'' 3))
       ''n'' ''c'' (VString ''1'') \<lparr>ttlMs = None\<rparr> 4)) (makeFullKey ''n'' ''b'') \<noteq> None \<and>
   map_of (store (set_cache (\<lambda>s. s) (\<lambda>u::unit. [])
       (snd (has (set_cache (\<lambda>s. s) (\<lambda>u::unit. []) 
          (set_cache (\<lambda>s. s) (\<lambda>u::unit. []) (new_cache (Some 10)) ''n'' ''a'' (VString ''12345'') \<lparr>ttlMs = None\<rparr> 1)
          ''n'' ''b'' (VString ''12345'') \<lparr>ttlMs = None\<rparr> 2) ''n'' ''a'' 3))
       ''n'' ''c'' (VString ''1'') \<lparr>ttlMs = None\<rparr> 4)) (makeFullKey ''n'' ''c'') \<noteq> None"
proof -
  let ?bf = "\<lambda>s::string. s" and ?js = "\<lambda>u::unit. ([]::string)"
  let ?c2 = "set_cache ?bf ?js
          (set_cache ?bf ?js (new_cache (Some 10)) ''n'' ''a'' (VString ''12345'') \<lparr>ttlMs = None\<rparr> 1)
          ''n'' ''b'' (VString ''12345'') \<lparr>ttlMs = None\<rparr> 2"
  let ?e = "\<lparr>value_buf = ''12345'', expiresAt = 0, lruNode = LRUNode ''n:a'', size_bytes = 5\<rparr>"
  have 1: "map_of (store ?c2) (makeFullKey ''n'' ''a'') = Some ?e"
    by code_simp
  have 2: "\<not> expired ?e 3" by (simp add: expired_def)
  have 3: "makeFullKey ''n'' ''a'' \<noteq> makeFullKey ''n'' ''b'' \<and>
          makeFullKey ''n'' ''a'' \<noteq> makeFullKey ''n'' ''c'' \<and>
          makeFullKey ''n'' ''b'' \<noteq> makeFullKey ''n'' ''c'' \<and>
          int (length (toBuffer ?bf ?js (VString ''12345''))) + int (length (toBuffer ?bf ?js (VString ''12345''))) = 10 \<and>
          0 < length (toBuffer ?bf ?js (VString ''1'')) \<and>
          length (toBuffer ?bf ?js (VString ''1'')) \<le> length (toBuffer ?bf ?js (VString ''12345''))"
    by (simp add: makeFullKey_def toBuffer_def)
  note T = has_keeps_recency[where bf = ?bf and js = ?js and c = ?c2 and ns = "''n''" and key = "''a''"
        and e = ?e and now = 3 and B = 10 and nsa = "''n''" and ka = "''a''" and va = "VString ''12345''"
        and oa = "\<lparr>ttlMs = None\<rparr>" and ta = 1 and nsb = "''n''" and kb = "''b''"
        and vb = "VString ''12345''" and ob = "\<lparr>ttlMs = None\<rparr>" and tb = 2 and th = 3
        and nsc = "''n''" and kc = "''c''" and vc = "VString ''1''" and oc = "\<lparr>ttlMs = None\<rparr>" and tc = 4]
  have 4: "has ?c2 ''n'' ''a'' 3 = (True, ?c2)" using T 1 2 by blast
  have 5: "fst (has ?c2 ''n'' ''a'' 3)" unfolding 4 by simp
  show ?thesis
    using T 4 5 3 by blast
qed


section \<open>A value larger than the whole budget\<close>

lemma sizes_nonneg: "0 \<le> sizes al"
  by (induction al) auto

lemma sizes_ge_entry: "map_of al k = Some e \<Longrightarrow> int (size_bytes e) \<le> sizes al"
proof (induction al)
  case Nil
  then show ?case by simp
next
  case (Cons p al)
  then show ?case using sizes_nonneg[of al] by (cases p) (auto split: if_splits)
qed

lemma cache_inv_lru_Nil: "cache_inv c \<Longrightarrow> lru c = [] \<Longrightarrow> store c = [] \<and> usedBytes c = 0"
  by (auto simp: cache_inv_def)

lemma moveToFront_eq: "moveToFront l n = n # remove1 n l"
  by (cases l) (auto simp: moveToFront_def detach_def)

lemma evict_head_oversized:
  "cache_inv c \<Longrightarrow> lru c = n # rest \<Longrightarrow> map_of (store c) (fullKey n) = Some e \<Longrightarrow>
   maxBytes c < int (size_bytes e) \<Longrightarrow>
   evictUntilWithinBudget c = \<lparr>store = [], lru = [], maxBytes = maxBytes c, usedBytes = 0\<rparr>"
proof (induction rest arbitrary: c rule: rev_induct)
  case Nil
  have over: "maxBytes c < usedBytes c"
    using Nil.prems sizes_ge_entry[of "store c" "fullKey n" e] by (simp add: cache_inv_def)
  let ?c' = "c\<lparr>usedBytes := usedBytes c - int (size_bytes e), lru := [],
               store := AList.delete (fullKey n) (store c)\<rparr>"
  have "lruNode e = n" using Nil.prems by (simp add: cache_inv_def)
  then have "cache_inv ?c'"
    using cache_inv_remove[OF Nil.prems(1,3)] Nil.prems(2) by (simp add: detach_def)
  then have "store ?c' = [] \<and> usedBytes ?c' = 0" by (rule cache_inv_lru_Nil) simp
  then have c': "?c' = \<lparr>store = [], lru = [], maxBytes = maxBytes c, usedBytes = 0\<rparr>" by simp
  have "evictUntilWithinBudget c = evictUntilWithinBudget ?c'"
    using over Nil.prems by (intro evict_step) simp_all
  also have "\<dots> = ?c'" by (rule evict_empty) simp
  finally show ?case using c' by simp
next
  case (snoc v rest)
  have over: "maxBytes c < usedBytes c"
    using snoc.prems sizes_ge_entry[of "store c" "fullKey n" e] by (simp add: cache_inv_def)
  have l: "lru c = (n # rest) @ [v]" using snoc.prems by simp
  then have "last (lru c) = v" "lru c \<noteq> []" by simp_all
  then obtain ev where ev: "map_of (store c) (fullKey v) = Some ev" "lruNode ev = v"
    using cache_inv_lookup_last[OF snoc.prems(1)] by auto
  have "distinct (lru c)" using snoc.prems(1) by (simp add: cache_inv_def)
  then have vn: "v \<noteq> n" and vr: "v \<notin> set rest" using l by auto
  then have kn: "fullKey v \<noteq> fullKey n" by (cases v; cases n) simp
  let ?c' = "c\<lparr>usedBytes := usedBytes c - int (size_bytes ev), lru := n # rest,
               store := AList.delete (fullKey v) (store c)\<rparr>"
  have "detach (lru c) (lruNode ev) = n # rest"
    using l vn vr ev by (simp add: detach_def remove1_append)
  then have inv': "cache_inv ?c'"
    using cache_inv_remove[OF snoc.prems(1) ev(1)] by simp
  have "map_of (store ?c') (fullKey n) = Some e"
    using snoc.prems(3) kn by (simp add: AList.delete_conv)
  then have "evictUntilWithinBudget ?c' =
      \<lparr>store = [], lru = [], maxBytes = maxBytes ?c', usedBytes = 0\<rparr>"
    using snoc.prems(4) by (intro snoc.IH[OF inv']) simp_all
  moreover have "evictUntilWithinBudget c = evictUntilWithinBudget ?c'"
    using over l ev by (intro evict_step) simp_all
  ultimately show ?case by simp
qed

lemma set_cache_pre:
  assumes "cache_inv c"
  obtains p e where
    "set_cache bf js c ns key v opts now = evictUntilWithinBudget p"
    "cache_inv p" "maxBytes p = maxBytes c"
    "lru p = LRUNode (makeFullKey ns key) # remove1 (LRUNode (makeFullKey ns key)) (lru c)"
    "map_of (store p) (makeFullKey ns key) = Some e"
    "value_buf e = toBuffer bf js v" "size_bytes e = length (toBuffer bf js v)"
    "expiresAt e = (case ttlMs opts of None \<Rightarrow> 0 | Some t \<Rightarrow> if t > 0 then now + nat t else 0)"
    "\<And>k. k \<noteq> makeFullKey ns key \<Longrightarrow> map_of (store p) k = map_of (store c) k"
proof (cases "map_of (store c) (makeFullKey ns key)")
  case None
  let ?fk = "makeFullKey ns key"
  let ?ex = "case ttlMs opts of None \<Rightarrow> 0 | Some t \<Rightarrow> if t > 0 then now + nat t else 0"
  let ?e = "\<lparr>value_buf = toBuffer bf js v, expiresAt = ?ex,
            lruNode = LRUNode ?fk, size_bytes = length (toBuffer bf js v)\<rparr>"
  let ?p = "c\<lparr>store := AList.update ?fk ?e (store c),
               lru := pushFront (lru c) (LRUNode ?fk),
               usedBytes := usedBytes c + int (length (toBuffer bf js v))\<rparr>"
  have "LRUNode ?fk \<notin> set (lru c)"
    using assms None by (auto simp: cache_inv_def map_of_eq_None_iff)
  then have r: "remove1 (LRUNode ?fk) (lru c) = lru c" by (simp add: remove1_idem)
  show ?thesis
  proof (rule that[of ?p ?e])
    show "set_cache bf js c ns key v opts now = evictUntilWithinBudget ?p"
      using None by (simp add: set_cache_def Let_def split: option.splits)
    show "cache_inv ?p" using assms None by (rule cache_inv_insert)
  qed (simp_all add: pushFront_def r AList.update_conv')
next
  case (Some ex)
  let ?fk = "makeFullKey ns key"
  let ?ex = "case ttlMs opts of None \<Rightarrow> 0 | Some t \<Rightarrow> if t > 0 then now + nat t else 0"
  let ?e = "ex\<lparr>value_buf := toBuffer bf js v, size_bytes := length (toBuffer bf js v),
               expiresAt := ?ex\<rparr>"
  let ?p = "c\<lparr>usedBytes := usedBytes c + (int (length (toBuffer bf js v)) - int (size_bytes ex)),
               store := AList.update ?fk ?e (store c),
               lru := moveToFront (lru c) (lruNode ex)\<rparr>"
  have n: "lruNode ex = LRUNode ?fk" using assms Some by (rule cache_inv_node_in_lru)
  show ?thesis
  proof (rule that[of ?p ?e])
    show "set_cache bf js c ns key v opts now = evictUntilWithinBudget ?p"
      using Some by (simp add: set_cache_def Let_def split: option.splits)
    show "cache_inv ?p" using assms Some by (rule cache_inv_replace)
  qed (simp_all add: n moveToFront_eq AList.update_conv')
qed


text \<open>
  C3, as the code has it. When the bytes of the value alone exceed \<open>maxBytes\<close>, \<open>set\<close> on a
  well-formed state returns without error, and budget enforcement removes every entry, the
  new one included: the table and the recency list are empty and \<open>usedBytes\<close> is 0. The
  loop stops only when the counter is within the budget or the list is empty, and the new
  entry, at the head, is popped last.
\<close>

theorem oversized_set_empties:
  assumes "cache_inv c" and "maxBytes c < int (length (toBuffer bf js v))"
  shows "set_cache bf js c ns key v opts now =
           \<lparr>store = [], lru = [], maxBytes = maxBytes c, usedBytes = 0\<rparr>"
proof -
  obtain p e where p: "set_cache bf js c ns key v opts now = evictUntilWithinBudget p"
    "cache_inv p" "maxBytes p = maxBytes c"
    "lru p = LRUNode (makeFullKey ns key) # remove1 (LRUNode (makeFullKey ns key)) (lru c)"
    "map_of (store p) (makeFullKey ns key) = Some e"
    "size_bytes e = length (toBuffer bf js v)"
    using assms(1) by (rule set_cache_pre[where bf = bf and js = js and ns = ns and key = key
          and v = v and opts = opts and now = now])
  have big: "maxBytes p < int (size_bytes e)"
    unfolding p(3) p(6) by (rule assms(2))
  have "map_of (store p) (fullKey (LRUNode (makeFullKey ns key))) = Some e"
    using p(5) by simp
  with p(2,4) have "evictUntilWithinBudget p =
      \<lparr>store = [], lru = [], maxBytes = maxBytes p, usedBytes = 0\<rparr>"
    using big by (rule evict_head_oversized)
  then show ?thesis by (simp add: p(1) p(3))
qed

text \<open>Budget 10, one entry of 5 bytes, then a value of 12 bytes.\<close>

theorem oversized_set_empties_witness:
  "cache_inv (set_cache (\<lambda>s. s) (\<lambda>u::unit. []) (new_cache (Some 10)) ''n'' ''a''
               (VString ''12345'') \<lparr>ttlMs = None\<rparr> 1) \<and>
   maxBytes (set_cache (\<lambda>s. s) (\<lambda>u::unit. []) (new_cache (Some 10)) ''n'' ''a''
               (VString ''12345'') \<lparr>ttlMs = None\<rparr> 1)
     < int (length (toBuffer (\<lambda>s. s) (\<lambda>u::unit. []) (VString ''123456789012''))) \<and>
   set_cache (\<lambda>s. s) (\<lambda>u::unit. [])
     (set_cache (\<lambda>s. s) (\<lambda>u::unit. []) (new_cache (Some 10)) ''n'' ''a''
        (VString ''12345'') \<lparr>ttlMs = None\<rparr> 1)
     ''n'' ''k'' (VString ''123456789012'') \<lparr>ttlMs = None\<rparr> 2 =
   \<lparr>store = [], lru = [], maxBytes = 10, usedBytes = 0\<rparr>"
proof -
  let ?c = "set_cache (\<lambda>s. s) (\<lambda>u::unit. []) (new_cache (Some 10)) ''n'' ''a''
               (VString ''12345'') \<lparr>ttlMs = None\<rparr> 1"
  have inv: "cache_inv ?c" by (intro cache_inv_set_cache cache_inv_new)
  have m: "maxBytes ?c = 10" by code_simp
  have big: "maxBytes ?c < int (length (toBuffer (\<lambda>s. s) (\<lambda>u::unit. []) (VString ''123456789012'')))"
    unfolding m by (simp add: toBuffer_def)
  show ?thesis
    using oversized_set_empties[OF inv big, of "''n''" "''k''" "\<lparr>ttlMs = None\<rparr>" 2] inv big m
    by simp
qed

text \<open>
  C3, as the specification states it, fails: after the oversized \<open>set\<close> the new entry is not the
  sole resident. The table is empty and \<open>get\<close> of the key just written returns nothing.
\<close>

theorem oversized_set_counterexample:
  "maxBytes (new_cache (Some 10))
     < int (length (toBuffer (\<lambda>s. s) (\<lambda>u::unit. []) (VString ''123456789012''))) \<and>
   store (set_cache (\<lambda>s. s) (\<lambda>u::unit. [])
     (set_cache (\<lambda>s. s) (\<lambda>u::unit. []) (new_cache (Some 10)) ''n'' ''a''
        (VString ''12345'') \<lparr>ttlMs = None\<rparr> 1)
     ''n'' ''k'' (VString ''123456789012'') \<lparr>ttlMs = None\<rparr> 2) = [] \<and>
   fst (get (set_cache (\<lambda>s. s) (\<lambda>u::unit. [])
     (set_cache (\<lambda>s. s) (\<lambda>u::unit. []) (new_cache (Some 10)) ''n'' ''a''
        (VString ''12345'') \<lparr>ttlMs = None\<rparr> 1)
     ''n'' ''k'' (VString ''123456789012'') \<lparr>ttlMs = None\<rparr> 2) ''n'' ''k'' 2) = None"
  by code_simp

section \<open>Composite keys and namespaces\<close>

text \<open>
  C4. The composite key is the concatenation with the separator \<open>:\<close>. The two different
  pairs (namespace \<open>a\<close>, key \<open>b:c\<close>) and (namespace \<open>a:b\<close>, key \<open>c\<close>) get the same
  full key.
\<close>

theorem makeFullKey_collision:
  "(''a'', ''b:c'') \<noteq> (''a:b'', ''c'') \<and> makeFullKey ''a'' ''b:c'' = makeFullKey ''a:b'' ''c''"
  by (simp add: makeFullKey_def)

text \<open>
  C5. \<open>clearNamespace\<close> removes the keys that start with the namespace and the separator.
  With one entry in namespace \<open>a\<close> and one in the different namespace \<open>a:b\<close>, both under
  the key \<open>x\<close>, \<open>clearNamespace(a)\<close> removes both and returns 2.
\<close>

theorem clearNamespace_crosses_namespaces:
  "''a'' \<noteq> ''a:b'' \<and>
   clearNamespace
     (set_cache (\<lambda>s. s) (\<lambda>u::unit. [])
        (set_cache (\<lambda>s. s) (\<lambda>u::unit. []) (new_cache None) ''a'' ''x''
           (VString ''1'') \<lparr>ttlMs = None\<rparr> 1)
        ''a:b'' ''x'' (VString ''2'') \<lparr>ttlMs = None\<rparr> 2)
     ''a'' =
   (2, \<lparr>store = [], lru = [], maxBytes = default_maxBytes, usedBytes = 0\<rparr>)"
  by code_simp


section \<open>Reads, expiry and deletion\<close>

text \<open>The sample state is reached from a new cache by two \<open>set\<close> calls at time 1000.\<close>

lemma sample_cache_run:
  "sample_cache =
     run (\<lambda>s. s) JSON_stringify (new_cache (Some 100))
       [Set ''n'' ''a'' (VString ''v1'') \<lparr>ttlMs = Some 20\<rparr> 1000,
        Set ''n'' ''b'' (VString ''v2'') \<lparr>ttlMs = None\<rparr> 1000]"
  by code_simp

lemma cache_inv_sample: "cache_inv sample_cache"
  unfolding sample_cache_run by (rule cache_inv_run) (rule cache_inv_new)

lemma sample_lookup:
  "map_of (store sample_cache) (makeFullKey ''n'' ''zz'') = None"
  "map_of (store sample_cache) (makeFullKey ''n'' ''a'') =
     Some \<lparr>value_buf = ''v1'', expiresAt = 1020, lruNode = LRUNode ''n:a'', size_bytes = 2\<rparr>"
  by (simp_all add: sample_cache_def makeFullKey_def)

lemma cache_inv_removed:
  assumes "cache_inv c" "map_of (store c) k = Some e"
  shows "k \<notin> fullKey ` set (detach (lru c) (lruNode e))"
    and "k \<notin> fst ` set (AList.delete k (store c))"
proof -
  have n: "lruNode e = LRUNode k" and d: "distinct (lru c)"
    using assms by (auto simp: cache_inv_def)
  have "LRUNode k \<notin> set (remove1 (LRUNode k) (lru c))" using d by simp
  then have "\<forall>x \<in> set (remove1 (LRUNode k) (lru c)). fullKey x \<noteq> k"
    by (metis LRUNode.collapse)
  then show "k \<notin> fullKey ` set (detach (lru c) (lruNode e))"
    by (auto simp: detach_def n)
  show "k \<notin> fst ` set (AList.delete k (store c))"
    by (auto simp: AList.delete_eq)
qed

text \<open>
  C6. \<open>get\<close> has three cases and no other outcome. An absent key: nothing is returned and
  the state is as before. A present key whose \<open>expiresAt\<close> is not 0 and is at most \<open>now\<close>:
  nothing is returned, the record is deleted from the table, its node is unlinked and its
  size is subtracted from \<open>usedBytes\<close>; in a well-formed state no node of that key is left
  in the list. Otherwise the stored bytes are returned and the node of the entry is at the
  head of the list, the other nodes keeping their order.
\<close>

theorem get_cases:
  "(map_of (store c) (makeFullKey ns key) = None \<longrightarrow> get c ns key now = (None, c)) \<and>
   (\<forall>e. map_of (store c) (makeFullKey ns key) = Some e \<and> expiresAt e \<noteq> 0 \<and> expiresAt e \<le> now \<longrightarrow>
      get c ns key now =
        (None, c\<lparr>usedBytes := usedBytes c - int (size_bytes e),
                 lru := detach (lru c) (lruNode e),
                 store := AList.delete (makeFullKey ns key) (store c)\<rparr>) \<and>
      map_of (store (snd (get c ns key now))) (makeFullKey ns key) = None \<and>
      (cache_inv c \<longrightarrow>
         makeFullKey ns key \<notin> fullKey ` set (lru (snd (get c ns key now))) \<and>
         lru (snd (get c ns key now)) = remove1 (LRUNode (makeFullKey ns key)) (lru c))) \<and>
   (\<forall>e. map_of (store c) (makeFullKey ns key) = Some e \<and> \<not> (expiresAt e \<noteq> 0 \<and> expiresAt e \<le> now) \<longrightarrow>
      get c ns key now = (Some (value_buf e), c\<lparr>lru := lruNode e # remove1 (lruNode e) (lru c)\<rparr>) \<and>
      (cache_inv c \<longrightarrow> lruNode e = LRUNode (makeFullKey ns key)))"
proof (intro conjI allI impI; (elim conjE)?)
  assume "map_of (store c) (makeFullKey ns key) = None"
  then show "get c ns key now = (None, c)" by (simp add: get_def)
next
  fix e assume e: "map_of (store c) (makeFullKey ns key) = Some e"
    and x: "expiresAt e \<noteq> 0" "expiresAt e \<le> now"
  then show g: "get c ns key now =
        (None, c\<lparr>usedBytes := usedBytes c - int (size_bytes e),
                 lru := detach (lru c) (lruNode e),
                 store := AList.delete (makeFullKey ns key) (store c)\<rparr>)"
    by (simp add: get_def delete_def expired_def)
  show "map_of (store (snd (get c ns key now))) (makeFullKey ns key) = None"
    unfolding g by (simp add: AList.delete_conv)
  assume inv: "cache_inv c"
  show "makeFullKey ns key \<notin> fullKey ` set (lru (snd (get c ns key now)))"
    unfolding g using cache_inv_removed(1)[OF inv e] by simp
  show "lru (snd (get c ns key now)) = remove1 (LRUNode (makeFullKey ns key)) (lru c)"
    unfolding g using cache_inv_node_in_lru(1)[OF inv e] by (simp add: detach_def)
next
  fix e assume e: "map_of (store c) (makeFullKey ns key) = Some e"
    and x: "\<not> (expiresAt e \<noteq> 0 \<and> expiresAt e \<le> now)"
  then show "get c ns key now = (Some (value_buf e), c\<lparr>lru := lruNode e # remove1 (lruNode e) (lru c)\<rparr>)"
    by (auto simp: get_def expired_def moveToFront_eq)
  assume inv: "cache_inv c"
  show "lruNode e = LRUNode (makeFullKey ns key)" using inv e by (rule cache_inv_node_in_lru)
qed

text \<open>The three cases on the sample state: an absent key, \<open>n:a\<close> after and before its expiry.\<close>

theorem get_cases_witness:
  "get sample_cache ''n'' ''zz'' 1030 = (None, sample_cache) \<and>
   get sample_cache ''n'' ''a'' 1030 =
     (None, \<lparr>store = [(''n:b'', \<lparr>value_buf = ''v2'', expiresAt = 0, lruNode = LRUNode ''n:b'', size_bytes = 2\<rparr>)],
             lru = [LRUNode ''n:b''], maxBytes = 100, usedBytes = 2\<rparr>) \<and>
   get sample_cache ''n'' ''a'' 1010 =
     (Some ''v1'', sample_cache\<lparr>lru := [LRUNode ''n:a'', LRUNode ''n:b'']\<rparr>)"
proof -
  let ?ea = "\<lparr>value_buf = ''v1'', expiresAt = 1020, lruNode = LRUNode ''n:a'', size_bytes = 2\<rparr>"
  have a: "get sample_cache ''n'' ''zz'' 1030 = (None, sample_cache)"
    using get_cases[of sample_cache "''n''" "''zz''" 1030] sample_lookup(1) by blast
  have x: "expiresAt ?ea \<noteq> 0 \<and> expiresAt ?ea \<le> 1030" by simp
  have "get sample_cache ''n'' ''a'' 1030 =
     (None, sample_cache\<lparr>usedBytes := usedBytes sample_cache - int (size_bytes ?ea),
                       lru := detach (lru sample_cache) (lruNode ?ea),
                       store := AList.delete (makeFullKey ''n'' ''a'') (store sample_cache)\<rparr>)"
    using get_cases[of sample_cache "''n''" "''a''" 1030] sample_lookup(2) x by blast
  then have b: "get sample_cache ''n'' ''a'' 1030 =
     (None, \<lparr>store = [(''n:b'', \<lparr>value_buf = ''v2'', expiresAt = 0, lruNode = LRUNode ''n:b'', size_bytes = 2\<rparr>)],
             lru = [LRUNode ''n:b''], maxBytes = 100, usedBytes = 2\<rparr>)"
    by (simp add: sample_cache_def makeFullKey_def detach_def AList.delete_eq)
  have y: "\<not> (expiresAt ?ea \<noteq> 0 \<and> expiresAt ?ea \<le> 1010)" by simp
  have "get sample_cache ''n'' ''a'' 1010 =
     (Some (value_buf ?ea), sample_cache\<lparr>lru := lruNode ?ea # remove1 (lruNode ?ea) (lru sample_cache)\<rparr>)"
    using get_cases[of sample_cache "''n''" "''a''" 1010] sample_lookup(2) y by blast
  then have c: "get sample_cache ''n'' ''a'' 1010 =
     (Some ''v1'', sample_cache\<lparr>lru := [LRUNode ''n:a'', LRUNode ''n:b'']\<rparr>)"
    by (simp add: sample_cache_def)
  show ?thesis using a b c by blast
qed

text \<open>
  C9. \<open>delete\<close> does not look at the expiry: on an entry that has expired but is still in
  the table it returns true and removes the record (and, in a well-formed state, its node),
  while \<open>has\<close> and \<open>get\<close> at that instant report the key absent.
\<close>

theorem delete_ignores_expiry:
  assumes "map_of (store c) (makeFullKey ns key) = Some e"
    and "expiresAt e \<noteq> 0" and "expiresAt e \<le> now"
  shows "fst (delete c ns key) = True \<and>
         map_of (store (snd (delete c ns key))) (makeFullKey ns key) = None \<and>
         snd (delete c ns key) =
           c\<lparr>usedBytes := usedBytes c - int (size_bytes e),
             lru := detach (lru c) (lruNode e),
             store := AList.delete (makeFullKey ns key) (store c)\<rparr> \<and>
         (cache_inv c \<longrightarrow>
            makeFullKey ns key \<notin> fullKey ` set (lru (snd (delete c ns key)))) \<and>
         fst (has c ns key now) = False \<and>
         fst (get c ns key now) = None"
  using assms cache_inv_removed(1)[OF _ assms(1)]
  by (simp add: delete_def has_def get_def expired_def AList.delete_conv)

text \<open>The expired entry \<open>n:a\<close> of the sample state at time 1030.\<close>

theorem delete_ignores_expiry_witness:
  "fst (delete sample_cache ''n'' ''a'') = True \<and>
   map_of (store (snd (delete sample_cache ''n'' ''a''))) (makeFullKey ''n'' ''a'') = None \<and>
   makeFullKey ''n'' ''a'' \<notin> fullKey ` set (lru (snd (delete sample_cache ''n'' ''a''))) \<and>
   fst (has sample_cache ''n'' ''a'' 1030) = False \<and>
   fst (get sample_cache ''n'' ''a'' 1030) = None"
proof -
  let ?ea = "\<lparr>value_buf = ''v1'', expiresAt = 1020, lruNode = LRUNode ''n:a'', size_bytes = 2\<rparr>"
  have "expiresAt ?ea \<noteq> 0" "expiresAt ?ea \<le> 1030" by simp_all
  from delete_ignores_expiry[OF sample_lookup(2) this] cache_inv_sample
  show ?thesis by blast
qed

text \<open>
  C10. \<open>stats\<close> counts an entry that has expired and is still in the table: the number of
  keys is the number of records, that entry included, and \<open>usedBytes\<close> is that entry's size
  plus the sizes of the others. \<open>stats\<close> takes no clock value and returns no state.
\<close>

lemma length_delete:
  "distinct (map fst al) \<Longrightarrow> map_of al k = Some e \<Longrightarrow> Suc (length (AList.delete k al)) = length al"
  by (induction al) (auto simp: sizes_delete_notin)

theorem stats_counts_expired:
  assumes "cache_inv c" and "map_of (store c) k = Some e"
    and "expiresAt e \<noteq> 0" and "expiresAt e \<le> now"
  shows "keys (stats c) = length (store c) \<and>
         keys (stats c) = Suc (length (AList.delete k (store c))) \<and>
         usedBytes_stat (stats c) = int (size_bytes e) + sizes (AList.delete k (store c)) \<and>
         maxBytes_stat (stats c) = maxBytes c"
  using assms by (simp add: stats_def cache_inv_def length_delete sizes_delete)

text \<open>At time 1030 the sample state still reports 2 keys and 4 bytes.\<close>

theorem stats_counts_expired_witness:
  "keys (stats sample_cache) = 2 \<and> usedBytes_stat (stats sample_cache) = 4 \<and>
   maxBytes_stat (stats sample_cache) = 100"
proof -
  let ?ea = "\<lparr>value_buf = ''v1'', expiresAt = 1020, lruNode = LRUNode ''n:a'', size_bytes = 2\<rparr>"
  have "expiresAt ?ea \<noteq> 0" "expiresAt ?ea \<le> 1030" by simp_all
  from stats_counts_expired[OF cache_inv_sample sample_lookup(2) this]
  show ?thesis by (simp add: sample_cache_def makeFullKey_def AList.delete_eq)
qed

section \<open>Budget enforcement converges\<close>

lemma evict_post:
  "maxBytes (evictUntilWithinBudget c) = maxBytes c \<and>
   (usedBytes (evictUntilWithinBudget c) \<le> maxBytes c \<or> lru (evictUntilWithinBudget c) = [])"
proof (induction c rule: evictUntilWithinBudget.induct)
  case (1 c)
  show ?case
  proof (cases "usedBytes c > maxBytes c \<and> lru c \<noteq> []")
    case False
    then have "evictUntilWithinBudget c = c"
      using evict_within[of c] evict_empty[of c] by auto
    then show ?thesis using False by auto
  next
    case True
    then have pb: "popBack (lru c) = (Some (last (lru c)), butlast (lru c))"
      by (simp add: popBack_def)
    show ?thesis
    proof (cases "map_of (store c) (fullKey (last (lru c)))")
      case None
      then show ?thesis
        using True pb "1.IH"(1)[OF _ pb[symmetric] refl None]
        by (subst (1 2 3) evictUntilWithinBudget.simps) simp
    next
      case (Some e)
      then show ?thesis
        using True pb "1.IH"(2)[OF _ pb[symmetric] refl Some]
        by (subst (1 2 3) evictUntilWithinBudget.simps) simp
    qed
  qed
qed

text \<open>
  C7. \<open>evictUntilWithinBudget\<close> is a total function: every round that goes on has
  shortened the recency list. From a well-formed state it ends within the budget or with
  an empty cache, and so does every \<open>set\<close>, which never rejects the write.
\<close>

theorem budget_enforcement_converges:
  assumes "cache_inv c"
  shows "(usedBytes (evictUntilWithinBudget c) \<le> maxBytes c \<or>
            store (evictUntilWithinBudget c) = [] \<and> lru (evictUntilWithinBudget c) = []) \<and>
         (usedBytes (set_cache bf js c ns key v opts now) \<le> maxBytes c \<or>
            store (set_cache bf js c ns key v opts now) = [] \<and>
            lru (set_cache bf js c ns key v opts now) = [])"
proof
  have "cache_inv (evictUntilWithinBudget c)" using assms by (rule cache_inv_evict)
  then show "usedBytes (evictUntilWithinBudget c) \<le> maxBytes c \<or>
            store (evictUntilWithinBudget c) = [] \<and> lru (evictUntilWithinBudget c) = []"
    using evict_post[of c] cache_inv_lru_Nil by blast
  obtain p and e :: CacheEntry
    where p: "set_cache bf js c ns key v opts now = evictUntilWithinBudget p"
    "cache_inv p" "maxBytes p = maxBytes c"
    using assms by (rule set_cache_pre[where bf = bf and js = js and ns = ns and key = key
          and v = v and opts = opts and now = now])
  have "cache_inv (evictUntilWithinBudget p)" using p(2) by (rule cache_inv_evict)
  then show "usedBytes (set_cache bf js c ns key v opts now) \<le> maxBytes c \<or>
            store (set_cache bf js c ns key v opts now) = [] \<and>
            lru (set_cache bf js c ns key v opts now) = []"
    unfolding p(1) p(3)[symmetric] using evict_post[of p] cache_inv_lru_Nil by blast
qed

text \<open>The sample state under a budget of 3, and a \<open>set\<close> of 10 bytes under the budget of 100.\<close>

theorem budget_enforcement_converges_witness:
  "usedBytes (evictUntilWithinBudget (sample_cache\<lparr>maxBytes := 3\<rparr>)) \<le> 3 \<and>
   (usedBytes (set_cache (\<lambda>s. s) JSON_stringify sample_cache ''n'' ''c''
        (VString ''0123456789'') \<lparr>ttlMs = None\<rparr> 1030) \<le> 100 \<or>
    store (set_cache (\<lambda>s. s) JSON_stringify sample_cache ''n'' ''c''
        (VString ''0123456789'') \<lparr>ttlMs = None\<rparr> 1030) = [])"
proof -
  have inv: "cache_inv (sample_cache\<lparr>maxBytes := 3\<rparr>)"
    using cache_inv_sample by (simp add: cache_inv_def)
  have ne: "store (evictUntilWithinBudget (sample_cache\<lparr>maxBytes := 3\<rparr>)) \<noteq> []"
    by code_simp
  have m: "maxBytes sample_cache = 100" "maxBytes (sample_cache\<lparr>maxBytes := 3\<rparr>) = 3"
    by (simp_all add: sample_cache_def)
  show ?thesis
    using budget_enforcement_converges[OF inv, of "\<lambda>s. s" JSON_stringify "''n''" "''c''" "VString ''0123456789''" "\<lparr>ttlMs = None\<rparr>" 1030]
      budget_enforcement_converges[OF cache_inv_sample, of "\<lambda>s. s" JSON_stringify "''n''" "''c''" "VString ''0123456789''" "\<lparr>ttlMs = None\<rparr>" 1030] ne
    unfolding m by blast
qed

section \<open>Writing and reading back\<close>

lemma single_key_store:
  assumes "fst ` set al = {k}" "distinct (map fst al)" "map_of al k = Some e"
  shows "al = [(k, e)]"
proof (cases al)
  case Nil
  then show ?thesis using assms by simp
next
  case (Cons p rest)
  have pk: "fst p = k" using assms(1) Cons by auto
  have "fst ` set rest \<subseteq> {k}" using assms(1) Cons by auto
  moreover have "k \<notin> fst ` set rest" using assms(2) Cons pk by auto
  ultimately have "rest = []" by (cases rest) auto
  then show ?thesis using assms(3) Cons pk by (cases p) auto
qed

lemma evict_keeps_head:
  "cache_inv c \<Longrightarrow> lru c = n # rest \<Longrightarrow> map_of (store c) (fullKey n) = Some e \<Longrightarrow>
   int (size_bytes e) \<le> maxBytes c \<Longrightarrow>
   map_of (store (evictUntilWithinBudget c)) (fullKey n) = Some e \<and>
   (\<exists>rest'. lru (evictUntilWithinBudget c) = n # rest')"
proof (induction rest arbitrary: c rule: rev_induct)
  case Nil
  have "set (lru c) = LRUNode ` fst ` set (store c)" "distinct (map fst (store c))"
    and u: "usedBytes c = sizes (store c)"
    using Nil.prems(1) by (simp_all add: cache_inv_def)
  then have "fst ` set (store c) = {fullKey n}" "distinct (map fst (store c))"
    using Nil.prems(2) by (cases n; auto simp: image_iff)+
  then have "store c = [(fullKey n, e)]" using Nil.prems(3) by (rule single_key_store)
  then have "usedBytes c = int (size_bytes e)" using u by simp
  then have "evictUntilWithinBudget c = c" using Nil.prems(4) by (intro evict_within) simp
  then show ?case using Nil.prems by simp
next
  case (snoc v rest)
  show ?case
  proof (cases "usedBytes c > maxBytes c")
    case False
    then have "evictUntilWithinBudget c = c" by (intro evict_within) simp
    then show ?thesis using snoc.prems by simp
  next
    case over: True
    have l: "lru c = (n # rest) @ [v]" using snoc.prems by simp
    then have "last (lru c) = v" "lru c \<noteq> []" by simp_all
    then obtain ev where ev: "map_of (store c) (fullKey v) = Some ev" "lruNode ev = v"
      using cache_inv_lookup_last[OF snoc.prems(1)] by auto
    have "distinct (lru c)" using snoc.prems(1) by (simp add: cache_inv_def)
    then have vn: "v \<noteq> n" and vr: "v \<notin> set rest" using l by auto
    then have kn: "fullKey v \<noteq> fullKey n" by (cases v; cases n) simp
    let ?c' = "c\<lparr>usedBytes := usedBytes c - int (size_bytes ev), lru := n # rest,
                 store := AList.delete (fullKey v) (store c)\<rparr>"
    have "detach (lru c) (lruNode ev) = n # rest"
      using l vn vr ev by (simp add: detach_def remove1_append)
    then have inv': "cache_inv ?c'"
      using cache_inv_remove[OF snoc.prems(1) ev(1)] by simp
    have "map_of (store ?c') (fullKey n) = Some e"
      using snoc.prems(3) kn by (simp add: AList.delete_conv)
    then have "map_of (store (evictUntilWithinBudget ?c')) (fullKey n) = Some e \<and>
      (\<exists>rest'. lru (evictUntilWithinBudget ?c') = n # rest')"
      using snoc.prems(4) by (intro snoc.IH[OF inv']) simp_all
    moreover have "evictUntilWithinBudget c = evictUntilWithinBudget ?c'"
      using over l ev by (intro evict_step) simp_all
    ultimately show ?thesis by simp
  qed
qed

lemma set_then_get:
  assumes "cache_inv c" "int (length (toBuffer bf js v)) \<le> maxBytes c"
    and "case ttlMs opts of None \<Rightarrow> True | Some t \<Rightarrow> t \<le> 0 \<or> now' < now + nat t"
  shows "fst (get (set_cache bf js c ns key v opts now) ns key now') = Some (toBuffer bf js v)"
proof -
  obtain p e where p: "set_cache bf js c ns key v opts now = evictUntilWithinBudget p"
    "cache_inv p" "maxBytes p = maxBytes c"
    "lru p = LRUNode (makeFullKey ns key) # remove1 (LRUNode (makeFullKey ns key)) (lru c)"
    "map_of (store p) (makeFullKey ns key) = Some e"
    "value_buf e = toBuffer bf js v" "size_bytes e = length (toBuffer bf js v)"
    "expiresAt e = (case ttlMs opts of None \<Rightarrow> 0 | Some t \<Rightarrow> if t > 0 then now + nat t else 0)"
    using assms(1) by (rule set_cache_pre[where bf = bf and js = js and ns = ns and key = key
          and v = v and opts = opts and now = now])
  have fits: "int (size_bytes e) \<le> maxBytes p"
    unfolding p(3) p(7) by (rule assms(2))
  have "map_of (store p) (fullKey (LRUNode (makeFullKey ns key))) = Some e"
    using p(5) by simp
  with p(2,4) have "map_of (store (evictUntilWithinBudget p)) (fullKey (LRUNode (makeFullKey ns key))) = Some e"
    using fits by (rule evict_keeps_head[THEN conjunct1])
  then have look: "map_of (store (set_cache bf js c ns key v opts now)) (makeFullKey ns key) = Some e"
    by (simp add: p(1))
  have "\<not> expired e now'"
    using assms(3) by (auto simp: expired_def p(8) split: option.splits)
  then show ?thesis using look by (simp add: get_def p(6))
qed

text \<open>
  C8. On a new cache whose budget admits the bytes of the value, \<open>set\<close> followed by \<open>get\<close>
  of the same namespace and key, before the entry expires, returns exactly the bytes that
  \<open>set\<close> stored: the serialization of the value, unchanged.
\<close>

theorem set_get_roundtrip:
  assumes "int (length (toBuffer bf js v)) \<le> maxBytes (new_cache m)"
    and "case ttlMs opts of None \<Rightarrow> True | Some t \<Rightarrow> t \<le> 0 \<or> now' < now + nat t"
  shows "fst (get (set_cache bf js (new_cache m) ns key v opts now) ns key now') =
           Some (toBuffer bf js v)"
  using cache_inv_new assms by (rule set_then_get)

text \<open>
  The end-to-end scenario: budget 1024, \<open>set\<close> of the object \<open>{a: 1}\<close> under \<open>n\<close>, \<open>k\<close>;
  \<open>get\<close> returns the seven bytes of its serialization.
\<close>

theorem set_get_roundtrip_witness:
  "fst (get (set_cache (\<lambda>s. s) JSON_stringify (new_cache (Some 1024)) ''n'' ''k''
               (VObject (JObj [(''a'', JNum 1)])) \<lparr>ttlMs = None\<rparr> 5) ''n'' ''k'' 6) =
     Some [CHR ''{'', CHR 0x22, CHR ''a'', CHR 0x22, CHR '':'', CHR ''1'', CHR ''}''] \<and>
   JSON_stringify (JObj [(''a'', JNum 1)]) =
     [CHR ''{'', CHR 0x22, CHR ''a'', CHR 0x22, CHR '':'', CHR ''1'', CHR ''}'']"
proof -
  have s: "JSON_stringify (JObj [(''a'', JNum 1)]) =
     [CHR ''{'', CHR 0x22, CHR ''a'', CHR 0x22, CHR '':'', CHR ''1'', CHR ''}'']"
    by code_simp
  have b: "toBuffer (\<lambda>s. s) JSON_stringify (VObject (JObj [(''a'', JNum 1)])) =
     [CHR ''{'', CHR 0x22, CHR ''a'', CHR 0x22, CHR '':'', CHR ''1'', CHR ''}'']"
    by (simp only: toBuffer_def CacheValue.case s)
  have 1: "int (length (toBuffer (\<lambda>s. s) JSON_stringify (VObject (JObj [(''a'', JNum 1)]))))
            \<le> maxBytes (new_cache (Some 1024))"
    unfolding b by (simp add: new_cache_def)
  have 2: "case ttlMs \<lparr>ttlMs = None\<rparr> of None \<Rightarrow> True | Some t \<Rightarrow> t \<le> 0 \<or> (6::nat) < 5 + nat t"
    by simp
  show ?thesis
    using set_get_roundtrip[OF 1 2, of "''n''" "''k''"] s by (simp only: b)
qed


section \<open>Namespaces and sweeping as filters\<close>

text \<open>
  The composite key is injective on the pairs whose namespaces do not contain the
  separator.
\<close>

lemma takeWhile_separator:
  "x \<notin> set ns \<Longrightarrow> takeWhile (\<lambda>y. y \<noteq> x) (ns @ x # key) = ns"
  by (induction ns) auto

lemma makeFullKey_inj_no_separator:
  assumes "CHR '':'' \<notin> set ns" "CHR '':'' \<notin> set ns'"
    and "makeFullKey ns key = makeFullKey ns' key'"
  shows "ns = ns' \<and> key = key'"
proof -
  have "takeWhile (\<lambda>x. x \<noteq> CHR '':'') (ns @ CHR '':'' # key) = ns"
    using assms(1) by (rule takeWhile_separator)
  moreover have "takeWhile (\<lambda>x. x \<noteq> CHR '':'') (ns' @ CHR '':'' # key') = ns'"
    using assms(2) by (rule takeWhile_separator)
  ultimately have "ns = ns'" using assms(3) by (simp add: makeFullKey_def)
  then show ?thesis using assms(3) by (simp add: makeFullKey_def)
qed


text \<open>
  In a well-formed state \<open>clearNamespace\<close> keeps exactly the records whose full key does
  not start with the namespace and the separator, in their order, and the nodes of those
  keys in their recency order; it returns the number of records it removed.
\<close>

lemma clearNamespace_loop_store:
  "distinct ks \<Longrightarrow>
   store (snd (clearNamespace_loop ns ks (r, c))) =
     filter (\<lambda>p. \<not> (fst p \<in> set ks \<and> prefix (ns @ '':'') (fst p))) (store c)"
proof (induction ks arbitrary: r c)
  case Nil
  then show ?case by simp
next
  case (Cons k ks)
  show ?case
  proof (cases "map_of (store c) k")
    case None
    then have "k \<notin> fst ` set (store c)" by (simp add: map_of_eq_None_iff)
    then have "filter (\<lambda>p. \<not> (fst p \<in> set (k # ks) \<and> prefix (ns @ '':'') (fst p))) (store c) =
               filter (\<lambda>p. \<not> (fst p \<in> set ks \<and> prefix (ns @ '':'') (fst p))) (store c)"
      by (intro filter_cong) auto
    then show ?thesis using None Cons by simp
  next
    case (Some e)
    show ?thesis
    proof (cases "prefix (ns @ '':'') k")
      case True
      have "filter (\<lambda>p. \<not> (fst p \<in> set ks \<and> prefix (ns @ '':'') (fst p))) (AList.delete k (store c)) =
            filter (\<lambda>p. \<not> (fst p \<in> set (k # ks) \<and> prefix (ns @ '':'') (fst p))) (store c)"
        using True by (auto simp: AList.delete_eq intro!: filter_cong)
      then show ?thesis using Some True Cons by simp
    next
      case False
      have "filter (\<lambda>p. \<not> (fst p \<in> set (k # ks) \<and> prefix (ns @ '':'') (fst p))) (store c) =
            filter (\<lambda>p. \<not> (fst p \<in> set ks \<and> prefix (ns @ '':'') (fst p))) (store c)"
        using False by (intro filter_cong) auto
      then show ?thesis using Some False Cons by simp
    qed
  qed
qed

lemma clearNamespace_store:
  "distinct (map fst (store c)) \<Longrightarrow>
   store (snd (clearNamespace c ns)) = filter (\<lambda>p. \<not> prefix (ns @ '':'') (fst p)) (store c)"
  unfolding clearNamespace_def
  by (subst clearNamespace_loop_store) (auto intro!: filter_cong)


lemma detach_filter:
  assumes "distinct l"
  shows "detach l n = filter (\<lambda>x. x \<noteq> n) l"
proof -
  have "filter (\<lambda>y. n \<noteq> y) l = filter (\<lambda>x. x \<noteq> n) l"
    by (rule filter_cong) auto
  then show ?thesis using assms
    by (simp add: detach_def distinct_remove1_removeAll removeAll_filter_not_eq)
qed

lemma clearNamespace_loop_lru:
  "cache_inv c \<Longrightarrow>
   lru (snd (clearNamespace_loop ns ks (r, c))) =
     filter (\<lambda>n. \<not> (fullKey n \<in> set ks \<and> prefix (ns @ '':'') (fullKey n))) (lru c)"
proof (induction ks arbitrary: r c)
  case Nil
  then show ?case by simp
next
  case (Cons k ks)
  show ?case
  proof (cases "map_of (store c) k")
    case None
    then have "k \<notin> fst ` set (store c)" by (simp add: map_of_eq_None_iff)
    then have "LRUNode k \<notin> set (lru c)" using Cons.prems by (auto simp: cache_inv_def)
    then have "\<forall>n \<in> set (lru c). fullKey n \<noteq> k" by (metis LRUNode.collapse)
    then have "filter (\<lambda>n. \<not> (fullKey n \<in> set (k # ks) \<and> prefix (ns @ '':'') (fullKey n))) (lru c) =
               filter (\<lambda>n. \<not> (fullKey n \<in> set ks \<and> prefix (ns @ '':'') (fullKey n))) (lru c)"
      by (intro filter_cong) auto
    then show ?thesis using None Cons by simp
  next
    case (Some e)
    show ?thesis
    proof (cases "prefix (ns @ '':'') k")
      case True
      let ?c' = "c\<lparr>usedBytes := usedBytes c - int (size_bytes e),
                   lru := detach (lru c) (lruNode e),
                   store := AList.delete k (store c)\<rparr>"
      have inv': "cache_inv ?c'" using Cons.prems Some by (rule cache_inv_remove)
      have n: "lruNode e = LRUNode k" using Cons.prems Some by (rule cache_inv_node_in_lru)
      have "distinct (lru c)" using Cons.prems by (simp add: cache_inv_def)
      then have d: "detach (lru c) (lruNode e) = filter (\<lambda>x. x \<noteq> LRUNode k) (lru c)"
        unfolding n by (rule detach_filter)
      have "\<And>x. x \<noteq> LRUNode k \<longleftrightarrow> fullKey x \<noteq> k" by (metis LRUNode.collapse LRUNode.sel)
      then have "filter (\<lambda>n. \<not> (fullKey n \<in> set ks \<and> prefix (ns @ '':'') (fullKey n)))
                   (detach (lru c) (lruNode e)) =
                 filter (\<lambda>n. \<not> (fullKey n \<in> set (k # ks) \<and> prefix (ns @ '':'') (fullKey n))) (lru c)"
        unfolding d using True by (auto intro!: filter_cong)
      then show ?thesis using Some True Cons.IH[OF inv'] by simp
    next
      case False
      have "filter (\<lambda>n. \<not> (fullKey n \<in> set (k # ks) \<and> prefix (ns @ '':'') (fullKey n))) (lru c) =
            filter (\<lambda>n. \<not> (fullKey n \<in> set ks \<and> prefix (ns @ '':'') (fullKey n))) (lru c)"
        using False by (intro filter_cong) auto
      then show ?thesis using Some False Cons by simp
    qed
  qed
qed

lemma clearNamespace_lru:
  assumes "cache_inv c"
  shows "lru (snd (clearNamespace c ns)) = filter (\<lambda>n. \<not> prefix (ns @ '':'') (fullKey n)) (lru c)"
proof -
  have "fullKey ` set (lru c) = set (map fst (store c))"
    using assms by (simp add: cache_inv_keys)
  then have "filter (\<lambda>n. \<not> (fullKey n \<in> set (map fst (store c)) \<and> prefix (ns @ '':'') (fullKey n))) (lru c) =
        filter (\<lambda>n. \<not> prefix (ns @ '':'') (fullKey n)) (lru c)"
    by (intro filter_cong) auto
  then show ?thesis
    unfolding clearNamespace_def using clearNamespace_loop_lru[OF assms] by simp
qed

lemma clearNamespace_frame:
  assumes "cache_inv c" and "\<not> prefix (ns @ '':'') k"
  shows "map_of (store (snd (clearNamespace c ns))) k = map_of (store c) k"
proof -
  have "distinct (map fst (store c))" using assms(1) by (simp add: cache_inv_def)
  then have "store (snd (clearNamespace c ns)) = filter (\<lambda>p. \<not> prefix (ns @ '':'') (fst p)) (store c)"
    by (rule clearNamespace_store)
  moreover have "map_of (filter (\<lambda>p. \<not> prefix (ns @ '':'') (fst p)) al) k = map_of al k" for al :: "(string \<times> CacheEntry) list"
    using assms(2) by (induction al) auto
  ultimately show ?thesis by simp
qed

lemma clearNamespace_loop_count:
  "distinct (map fst (store c)) \<Longrightarrow>
   fst (clearNamespace_loop ns ks (r, c)) + length (store (snd (clearNamespace_loop ns ks (r, c)))) =
     r + length (store c)"
proof (induction ks arbitrary: r c)
  case Nil
  then show ?case by simp
next
  case (Cons k ks)
  show ?case
  proof (cases "map_of (store c) k")
    case None
    then show ?thesis using Cons by simp
  next
    case (Some e)
    let ?c' = "c\<lparr>usedBytes := usedBytes c - int (size_bytes e),
                 lru := detach (lru c) (lruNode e),
                 store := AList.delete k (store c)\<rparr>"
    have d: "distinct (map fst (store ?c'))"
      using Cons.prems by (simp add: AList.distinct_delete)
    have "Suc (length (store ?c')) = length (store c)"
      using Cons.prems Some by (simp add: length_delete)
    then show ?thesis using Some Cons.IH[OF d] Cons.IH[OF Cons.prems] by simp
  qed
qed

lemma clearNamespace_count:
  assumes "distinct (map fst (store c))"
  shows "fst (clearNamespace c ns) = length (filter (\<lambda>p. prefix (ns @ '':'') (fst p)) (store c))"
proof -
  have "fst (clearNamespace c ns) + length (store (snd (clearNamespace c ns))) = length (store c)"
    unfolding clearNamespace_def using clearNamespace_loop_count[OF assms, of ns _ 0] by simp
  moreover have "length (filter (\<lambda>p. prefix (ns @ '':'') (fst p)) (store c)) +
      length (filter (\<lambda>p. \<not> prefix (ns @ '':'') (fst p)) (store c)) = length (store c)"
    by (rule sum_length_filter_compl)
  ultimately show ?thesis using clearNamespace_store[OF assms, of ns] by simp
qed

text \<open>A sweep pass keeps exactly the records that have not expired at the time it reads.\<close>

lemma sweepExpired_loop_store:
  "distinct (map fst (store c)) \<Longrightarrow>
   store (sweepExpired_loop now ks c) =
     filter (\<lambda>p. \<not> (fst p \<in> set ks \<and> expired (snd p) now)) (store c)"
proof (induction ks arbitrary: c)
  case Nil
  then show ?case by simp
next
  case (Cons k ks)
  show ?case
  proof (cases "map_of (store c) k")
    case None
    then have "k \<notin> fst ` set (store c)" by (simp add: map_of_eq_None_iff)
    then have "filter (\<lambda>p. \<not> (fst p \<in> set (k # ks) \<and> expired (snd p) now)) (store c) =
               filter (\<lambda>p. \<not> (fst p \<in> set ks \<and> expired (snd p) now)) (store c)"
      by (intro filter_cong) auto
    then show ?thesis using None Cons by simp
  next
    case (Some e)
    have only: "\<And>p. p \<in> set (store c) \<Longrightarrow> fst p = k \<Longrightarrow> snd p = e"
      using Some Cons.prems by (metis map_of_is_SomeI option.inject prod.collapse)
    show ?thesis
    proof (cases "expired e now")
      case True
      let ?c' = "c\<lparr>usedBytes := usedBytes c - int (size_bytes e),
                   lru := detach (lru c) (lruNode e),
                   store := AList.delete k (store c)\<rparr>"
      have d: "distinct (map fst (store ?c'))"
        using Cons.prems by (simp add: AList.distinct_delete)
      have "filter (\<lambda>p. \<not> (fst p \<in> set ks \<and> expired (snd p) now)) (AList.delete k (store c)) =
            filter (\<lambda>p. \<not> (fst p \<in> set (k # ks) \<and> expired (snd p) now)) (store c)"
        using True only by (auto simp: AList.delete_eq intro!: filter_cong)
      then show ?thesis using Some True Cons.IH[OF d] by simp
    next
      case False
      have "filter (\<lambda>p. \<not> (fst p \<in> set (k # ks) \<and> expired (snd p) now)) (store c) =
            filter (\<lambda>p. \<not> (fst p \<in> set ks \<and> expired (snd p) now)) (store c)"
        using False only by (intro filter_cong) auto
      then show ?thesis using Some False Cons by simp
    qed
  qed
qed

lemma sweepExpired_store:
  "distinct (map fst (store c)) \<Longrightarrow>
   store (sweepExpired c now) = filter (\<lambda>p. \<not> expired (snd p) now) (store c)"
  unfolding sweepExpired_def
  by (subst sweepExpired_loop_store) (auto intro!: filter_cong)


section \<open>The linked list implements the sequence\<close>

text \<open>
  On a well-linked list, the methods of \<^verbatim>\<open>LRUList\<close> act on the sequence it holds as
  \<^const>\<open>detach\<close>, \<^const>\<open>pushFront\<close>, \<^const>\<open>moveToFront\<close> and \<^const>\<open>popBack\<close> act on the
  sequence of nodes.
\<close>

lemma chain_not_in: "chain f (f a) as \<Longrightarrow> a \<notin> set as"
proof
  assume c: "chain f (f a) as" and "a \<in> set as"
  then obtain ys zs where as: "as = ys @ a # zs" by (auto simp: in_set_conv_decomp)
  have *: "\<And>x. chain f x (ys @ a # zs) \<Longrightarrow> chain f (f a) zs"
    by (induction ys) auto
  have len: "\<And>x us vs. chain f x us \<Longrightarrow> chain f x vs \<Longrightarrow> us = vs"
  proof -
    fix x us vs show "chain f x us \<Longrightarrow> chain f x vs \<Longrightarrow> us = vs"
      by (induction us arbitrary: x vs) (case_tac vs; auto)+
  qed
  from c as have "chain f (f a) zs" using * by blast
  with c have "as = zs" by (rule len)
  with as show False by simp
qed

lemma chain_distinct: "chain f x as \<Longrightarrow> distinct as"
  by (induction as arbitrary: x) (auto simp: chain_not_in)

lemma chain_frame: "u \<notin> set as \<Longrightarrow> chain (f(u := v)) x as = chain f x as"
  by (induction as arbitrary: x) auto

lemma chain_split:
  "chain f x (as @ b # bs) \<Longrightarrow>
   x = Some (hd (as @ [b])) \<and> f b = (case bs of [] \<Rightarrow> None | c # _ \<Rightarrow> Some c) \<and>
   chain f (f b) bs \<and> (as \<noteq> [] \<longrightarrow> f (last as) = Some b)"
  by (induction as arbitrary: x) (auto split: list.splits)

lemma chain_unlink_first:
  assumes "chain f x (b # bs)"
  shows "chain (f(b := None)) (f b) bs"
proof -
  have "b \<notin> set bs" using assms chain_distinct[OF assms] by simp
  then show ?thesis using assms by (simp add: chain_frame)
qed

lemma chain_unlink_inner:
  assumes "chain f x (as @ a # b # bs)"
  shows "chain (f(a := f b, b := None)) x (as @ a # bs)"
proof -
  have d: "distinct (as @ a # b # bs)" using assms by (rule chain_distinct)
  show ?thesis using assms d
  proof (induction as arbitrary: x)
    case Nil
    then have "chain f (f b) bs" "a \<notin> set bs" "b \<notin> set bs" "a \<noteq> b" "x = Some a" by auto
    then have "chain (f(a := f b, b := None)) (f b) bs"
      by (metis chain_frame)
    then show ?case using \<open>a \<noteq> b\<close> \<open>x = Some a\<close>
      by (simp del: fun_upd_apply add: fun_upd_same fun_upd_other)
  next
    case (Cons c as)
    have "chain (f(a := f b, b := None)) (f c) (as @ a # bs)"
      using Cons.prems by (intro Cons.IH) auto
    moreover have "c \<noteq> a" "c \<noteq> b" using Cons.prems by auto
    ultimately show ?case using Cons.prems
      by (simp del: fun_upd_apply add: fun_upd_same fun_upd_other)
  qed
qed


lemma chain_unlink:
  assumes "chain f x (as @ b # bs)" and "q = (if as = [] then None else Some (last as))"
  shows "chain ((case q of None \<Rightarrow> f | Some a \<Rightarrow> f(a := f b))(b := None))
               (if x = Some b then f b else x) (as @ bs)"
proof (cases as rule: rev_cases)
  case Nil
  then show ?thesis using assms chain_unlink_first[of f x b bs] by simp
next
  case (snoc as' a)
  have d: "distinct (as' @ a # b # bs)" using assms(1) snoc chain_distinct by fastforce
  have "x = Some (hd ((as' @ [a]) @ [b]))" using assms(1) chain_split[of f x "as' @ [a]" b bs] snoc by simp
  then have "x \<noteq> Some b" using d by (cases as') auto
  then show ?thesis using assms snoc chain_unlink_inner[of f x as' a b bs] by simp
qed

lemma is_list_around:
  assumes "is_list L (as @ n # bs)"
  shows "prev_p L n = (if as = [] then None else Some (last as))"
    and "next_p L n = (if bs = [] then None else Some (hd bs))"
    and "head L = Some (hd (as @ [n]))" and "tail L = Some (last (n # bs))"
    and "distinct (as @ n # bs)"
proof -
  have f: "chain (next_p L) (head L) (as @ n # bs)"
    and b: "chain (prev_p L) (tail L) (rev bs @ n # rev as)"
    using assms by (simp_all add: is_list_def)
  show "next_p L n = (if bs = [] then None else Some (hd bs))"
    and "head L = Some (hd (as @ [n]))"
    using chain_split[OF f] by (auto split: list.splits)
  show "prev_p L n = (if as = [] then None else Some (last as))"
    using chain_split[OF b] by (cases as rule: rev_cases) (auto split: list.splits)
  show "tail L = Some (last (n # bs))"
    using chain_split[OF b] by (cases bs rule: rev_cases) (auto simp: hd_append)
  show "distinct (as @ n # bs)" using f by (rule chain_distinct)
qed

lemma detach_p_fields:
  assumes "prev_p L n \<noteq> Some n" "next_p L n \<noteq> Some n"
  shows "next_p (detach_p L n) =
           (case prev_p L n of None \<Rightarrow> next_p L | Some p \<Rightarrow> (next_p L)(p := next_p L n))(n := None)"
    and "prev_p (detach_p L n) =
           (case next_p L n of None \<Rightarrow> prev_p L | Some x \<Rightarrow> (prev_p L)(x := prev_p L n))(n := None)"
    and "head (detach_p L n) = (if head L = Some n then next_p L n else head L)"
    and "tail (detach_p L n) = (if tail L = Some n then prev_p L n else tail L)"
  using assms by (auto simp: detach_p_def Let_def split: option.splits)

theorem detach_p_refines:
  assumes "is_list L xs" "n \<in> set xs"
  shows "is_list (detach_p L n) (remove1 n xs)"
proof -
  obtain as bs where xs: "xs = as @ n # bs" "n \<notin> set as"
    using split_list_first[OF assms(2)] by blast
  have l: "is_list L (as @ n # bs)" using assms(1) xs by simp
  note around = is_list_around[OF l]
  have f: "chain (next_p L) (head L) (as @ n # bs)"
    and b: "chain (prev_p L) (tail L) (rev bs @ n # rev as)"
    using l by (simp_all add: is_list_def)
  have "as \<noteq> [] \<Longrightarrow> last as \<noteq> n"
    using xs(2) last_in_set by metis
  moreover have "bs \<noteq> [] \<Longrightarrow> hd bs \<noteq> n"
    using around(5) by (cases bs) auto
  ultimately
  have self: "prev_p L n \<noteq> Some n" "next_p L n \<noteq> Some n"
    unfolding around(1,2) by auto
  have hx: "(head L = Some n) = (as = [])"
    unfolding around(3) using xs(2) by (cases as) auto
  have "bs \<noteq> [] \<Longrightarrow> last bs \<noteq> n" using around(5) by (cases bs rule: rev_cases) auto
  then have tx: "(tail L = Some n) = (bs = [])"
    unfolding around(4) by auto
  have h': "head (detach_p L n) = (if head L = Some n then next_p L n else head L)"
    and t': "tail (detach_p L n) = (if tail L = Some n then prev_p L n else tail L)"
    by (rule detach_p_fields[OF self])+
  have 1: "chain (next_p (detach_p L n)) (head (detach_p L n)) (as @ bs)"
    unfolding detach_p_fields(1)[OF self] h'
    using f around(1) by (rule chain_unlink)
  have q: "next_p L n = (if rev bs = [] then None else Some (last (rev bs)))"
    unfolding around(2) by (simp add: last_rev)
  have 2: "chain (prev_p (detach_p L n)) (tail (detach_p L n)) (rev bs @ rev as)"
    unfolding detach_p_fields(2)[OF self] t'
    using b q by (rule chain_unlink)
  have "remove1 n xs = as @ bs" using xs by (simp add: remove1_append)
  then show ?thesis using 1 2 by (simp add: is_list_def)
qed


lemma is_list_distinct: "is_list L xs \<Longrightarrow> distinct xs"
  unfolding is_list_def using chain_distinct by blast

lemma is_list_ends:
  assumes "is_list L xs"
  shows "head L = (if xs = [] then None else Some (hd xs))"
    and "tail L = (if xs = [] then None else Some (last xs))"
proof -
  show "head L = (if xs = [] then None else Some (hd xs))"
    using assms by (cases xs) (auto simp: is_list_def)
  show "tail L = (if xs = [] then None else Some (last xs))"
    using assms by (cases xs rule: rev_cases) (auto simp: is_list_def)
qed

lemma chain_extend:
  assumes "chain f x (as @ [h])" "n \<notin> set (as @ [h])" "f n = None"
  shows "chain (f(h := Some n)) x (as @ [h, n])"
proof -
  have "distinct (as @ [h])" using assms(1) by (rule chain_distinct)
  then show ?thesis using assms
  proof (induction as arbitrary: x)
    case Nil
    then show ?case by (simp del: fun_upd_apply add: fun_upd_same fun_upd_other)
  next
    case (Cons a as)
    have "chain (f(h := Some n)) (f a) (as @ [h, n])"
      using Cons.prems by (intro Cons.IH) auto
    moreover have "a \<noteq> h" using Cons.prems by auto
    ultimately show ?case using Cons.prems
      by (simp del: fun_upd_apply add: fun_upd_same fun_upd_other)
  qed
qed

lemma link_front_refines:
  assumes "is_list L xs" "n \<notin> set xs" "prev_p L n = None"
  shows "is_list (link_front L n) (n # xs)"
proof (cases xs)
  case Nil
  then have "head L = None" "tail L = None" using is_list_ends[OF assms(1)] by simp_all
  then show ?thesis using assms(3) Nil
    by (simp add: link_front_def is_list_def)
next
  case (Cons h t)
  have e: "head L = Some h" "tail L = Some (last (h # t))"
    using is_list_ends[OF assms(1)] Cons by simp_all
  have f: "chain (next_p L) (head L) xs" and b: "chain (prev_p L) (tail L) (rev t @ [h])"
    using assms(1) Cons by (simp_all add: is_list_def)
  have 1: "chain ((next_p L)(n := Some h)) (Some n) (n # xs)"
    using f assms(2) e(1) by (simp add: chain_frame)
  have 2: "chain ((prev_p L)(h := Some n)) (tail L) (rev (n # xs))"
    using chain_extend[OF b, of n] assms(2,3) Cons by simp
  have "link_front L n =
      L\<lparr>next_p := (next_p L)(n := Some h), prev_p := (prev_p L)(h := Some n), head := Some n\<rparr>"
    using e by (simp add: link_front_def)
  then have "next_p (link_front L n) = (next_p L)(n := Some h)"
    "prev_p (link_front L n) = (prev_p L)(h := Some n)"
    "head (link_front L n) = Some n" "tail (link_front L n) = tail L"
    by simp_all
  then show ?thesis unfolding is_list_def using 1 2 by (simp only:)
qed

theorem pushFront_p_refines:
  assumes "is_list L xs" "n \<notin> set xs"
  shows "is_list (pushFront_p L n) (n # xs)"
proof -
  have "is_list (L\<lparr>prev_p := (prev_p L)(n := None)\<rparr>) xs"
    using assms by (simp add: is_list_def chain_frame)
  then show ?thesis unfolding pushFront_p_def
    using assms(2) by (rule link_front_refines) simp
qed

theorem moveToFront_p_refines:
  assumes "is_list L xs" "n \<in> set xs"
  shows "is_list (moveToFront_p L n) (n # remove1 n xs)"
proof (cases "head L = Some n")
  case True
  then have "xs = n # remove1 n xs"
    using is_list_ends(1)[OF assms(1)] assms(2) by (cases xs) auto
  then show ?thesis using True assms(1) by (simp add: moveToFront_p_def)
next
  case False
  have d: "distinct xs" using assms(1) by (rule is_list_distinct)
  obtain as bs where xs: "xs = as @ n # bs"
    using split_list[OF assms(2)] by blast
  note around = is_list_around[OF assms(1)[unfolded xs]]
  have "as \<noteq> [] \<Longrightarrow> last as \<noteq> n" using d xs by (cases as rule: rev_cases) auto
  moreover have "bs \<noteq> [] \<Longrightarrow> hd bs \<noteq> n" using d xs by (cases bs) auto
  ultimately have self: "prev_p L n \<noteq> Some n" "next_p L n \<noteq> Some n"
    unfolding around(1,2) by auto
  have "prev_p (detach_p L n) n = None"
    unfolding detach_p_fields(2)[OF self] by simp
  moreover have "n \<notin> set (remove1 n xs)" using d by simp
  moreover have "is_list (detach_p L n) (remove1 n xs)" using assms by (rule detach_p_refines)
  ultimately have "is_list (link_front (detach_p L n) n) (n # remove1 n xs)"
    by (intro link_front_refines)
  then show ?thesis using False by (simp add: moveToFront_p_def)
qed

theorem popBack_p_refines:
  assumes "is_list L xs"
  shows "(xs = [] \<longrightarrow> popBack_p L = (None, L)) \<and>
         (xs \<noteq> [] \<longrightarrow> fst (popBack_p L) = Some (last xs) \<and> is_list (snd (popBack_p L)) (butlast xs))"
proof (cases "xs = []")
  case True
  then show ?thesis using is_list_ends(2)[OF assms] by (simp add: popBack_p_def)
next
  case False
  then have t: "tail L = Some (last xs)" using is_list_ends(2)[OF assms] by simp
  have "distinct xs" using assms by (rule is_list_distinct)
  then have "remove1 (last xs) xs = butlast xs" using False
    by (induction xs) auto
  moreover have "is_list (detach_p L (last xs)) (remove1 (last xs) xs)"
    using assms False by (intro detach_p_refines) simp_all
  ultimately show ?thesis using t False by (simp add: popBack_p_def)
qed

lemma map_remove1_inj:
  "inj_on g (set xs) \<Longrightarrow> n \<in> set xs \<Longrightarrow> map g (remove1 n xs) = remove1 (g n) (map g xs)"
proof (induction xs)
  case Nil
  then show ?case by simp
next
  case (Cons x xs)
  then show ?case by (cases "x = n") (auto simp: inj_on_def)
qed

lemma abstracts_node_inj:
  assumes "inj_on key (set xs)"
  shows "inj_on (\<lambda>r. LRUNode (key r)) (set xs)"
  using assms by (auto simp: inj_on_def)

theorem detach_simulation:
  assumes "abstracts key L xs l" "n \<in> set xs"
  shows "abstracts key (detach_p L n) (remove1 n xs) (detach l (LRUNode (key n)))"
proof -
  have "is_list (detach_p L n) (remove1 n xs)"
    using assms by (intro detach_p_refines) (simp_all add: abstracts_def)
  moreover have "inj_on key (set xs)" using assms(1) by (simp add: abstracts_def)
  then have "inj_on key (set (remove1 n xs))"
    by (rule inj_on_subset) (rule set_remove1_subset)
  moreover have "map (\<lambda>r. LRUNode (key r)) (remove1 n xs) =
                 remove1 (LRUNode (key n)) (map (\<lambda>r. LRUNode (key r)) xs)"
    using assms by (intro map_remove1_inj abstracts_node_inj) (simp_all add: abstracts_def)
  ultimately show ?thesis using assms(1) by (simp add: abstracts_def detach_def)
qed

theorem pushFront_simulation:
  assumes "abstracts key L xs l" "key n \<notin> key ` set xs"
  shows "abstracts key (pushFront_p L n) (n # xs) (pushFront l (LRUNode (key n)))"
proof -
  have "n \<notin> set xs" using assms(2) by auto
  then have "is_list (pushFront_p L n) (n # xs)"
    using assms(1) by (intro pushFront_p_refines) (simp_all add: abstracts_def)
  moreover have "inj_on key (set (n # xs))"
    using assms by (auto simp: abstracts_def)
  ultimately show ?thesis using assms(1) by (simp add: abstracts_def pushFront_def)
qed

theorem moveToFront_simulation:
  assumes "abstracts key L xs l" "n \<in> set xs"
  shows "abstracts key (moveToFront_p L n) (n # remove1 n xs) (moveToFront l (LRUNode (key n)))"
proof -
  have il: "is_list L xs" and inj: "inj_on key (set xs)" and l: "l = map (\<lambda>r. LRUNode (key r)) xs"
    using assms(1) by (simp_all add: abstracts_def)
  have "is_list (moveToFront_p L n) (n # remove1 n xs)"
    using il assms(2) by (rule moveToFront_p_refines)
  moreover have "distinct xs" using il by (rule is_list_distinct)
  then have "inj_on key (set (n # remove1 n xs))"
    using inj assms(2) by (simp add: insert_absorb)
  moreover have "map (\<lambda>r. LRUNode (key r)) (remove1 n xs) =
                 remove1 (LRUNode (key n)) (map (\<lambda>r. LRUNode (key r)) xs)"
    using inj assms(2) by (intro map_remove1_inj abstracts_node_inj)
  ultimately show ?thesis
    by (simp add: abstracts_def l moveToFront_eq)
qed

theorem popBack_simulation:
  assumes "abstracts key L xs l"
  shows "fst (popBack l) = map_option (\<lambda>r. LRUNode (key r)) (fst (popBack_p L)) \<and>
         abstracts key (snd (popBack_p L)) (butlast xs) (snd (popBack l))"
proof (cases "xs = []")
  case True
  then show ?thesis using assms popBack_p_refines[of L xs]
    by (simp add: abstracts_def popBack_def)
next
  case False
  have il: "is_list L xs" and inj: "inj_on key (set xs)" and l: "l = map (\<lambda>r. LRUNode (key r)) xs"
    using assms(1) by (simp_all add: abstracts_def)
  have "inj_on key (set (butlast xs))"
    using inj by (rule inj_on_subset) (auto dest: in_set_butlastD)
  then show ?thesis using False popBack_p_refines[OF il] l
    by (simp add: abstracts_def popBack_def last_map map_butlast)
qed

end
